theory Spec2Isabelle
  imports Main
begin

section \<open>Promises and failures\<close>

text \<open>
  The utilities of \<^verbatim>\<open>Utils\<close> are asynchronous. A promise is modelled by what it
  does: it stays pending for ever, or it settles after some number of time units
  (counted from the moment it is created), fulfilled with a value or rejected with a
  reason.
\<close>

datatype ('e, 'r) promise = Pending | Fulfilled nat 'r | Rejected nat 'e

text \<open>
  What a call can fail with. \<open>Underlying e\<close> is a failure \<open>e\<close> raised by the caller's
  own operation or processor and passed on as the very same value;
  \<open>TimeoutError ms\<close> is \<^verbatim>\<open>new Error(`Operation timed out after ${ms}ms`)\<close>;
  \<open>Undefined\<close> is the value of the unassigned \<^verbatim>\<open>lastError\<close>.
  \<open>OperationFailed\<close> and \<open>InvalidArgument\<close> are the two further kinds of the
  specification's error taxonomy; no function below builds them.
\<close>

datatype 'e failure =
    Underlying 'e
  | TimeoutError int
  | Undefined
  | OperationFailed 'e
  | InvalidArgument

text \<open>
  How the body of an \<^verbatim>\<open>async\<close> function ends: it returns, it throws, or it is
  suspended for ever at an \<^verbatim>\<open>await\<close> on a promise that never settles.
\<close>

datatype ('e, 'r) completion = Returned 'r | Threw 'e | Suspended

subsection \<open>\<^verbatim>\<open>Promise.all\<close>\<close>

text \<open>
  \<^verbatim>\<open>Promise.all\<close> rejects as soon as one of its promises rejects, with that
  promise's reason: the earliest rejection wins (the earlier array position among
  rejections of the same instant), whatever the other promises do. With no rejection
  it is fulfilled once every promise is, with the values in array order, and it
  stays pending when one of them does.
\<close>

fun first_rejection :: "('e, 'r) promise list \<Rightarrow> (nat \<times> 'e) option" where
  "first_rejection [] = None"
| "first_rejection (Rejected t e # ps) =
     (case first_rejection ps of
        None \<Rightarrow> Some (t, e)
      | Some (t', e') \<Rightarrow> if t' < t then Some (t', e') else Some (t, e))"
| "first_rejection (Fulfilled t v # ps) = first_rejection ps"
| "first_rejection (Pending # ps) = first_rejection ps"

fun all_fulfilled :: "('e, 'r) promise list \<Rightarrow> (nat \<times> 'r list) option" where
  "all_fulfilled [] = Some (0, [])"
| "all_fulfilled (Fulfilled t v # ps) =
     (case all_fulfilled ps of
        None \<Rightarrow> None
      | Some (t', vs) \<Rightarrow> Some (max t t', v # vs))"
| "all_fulfilled (Rejected t e # ps) = None"
| "all_fulfilled (Pending # ps) = None"

definition promise_all :: "('e, 'r) promise list \<Rightarrow> ('e, 'r list) promise" where
  "promise_all ps =
     (case first_rejection ps of
        Some (t, e) \<Rightarrow> Rejected t e
      | None \<Rightarrow>
          (case all_fulfilled ps of
             Some (t, vs) \<Rightarrow> Fulfilled t vs
           | None \<Rightarrow> Pending))"

subsection \<open>\<^verbatim>\<open>Array.prototype.slice\<close>\<close>

text \<open>
  \<^verbatim>\<open>items.slice(start, end)\<close>: a negative index counts from the end of the array,
  both indices are clamped to the array, and an end at or before the start gives the
  empty array.
\<close>

definition slice :: "'a list \<Rightarrow> int \<Rightarrow> int \<Rightarrow> 'a list" where
  "slice xs start end' =
     (let len = int (length xs);
          k = (if start < 0 then max (len + start) 0 else min start len);
          final = (if end' < 0 then max (len + end') 0 else min end' len)
      in take (nat (final - k)) (drop (nat k) xs))"

section \<open>\<^verbatim>\<open>Utils.batchProcess\<close>\<close>

text \<open>
  \<^verbatim>\<open>
  static async batchProcess<T, R>(items: T[], processor: (item: T) => Promise<R>,
                                  concurrency: number = 5): Promise<R[]> {
    const results: R[] = [];
    for (let i = 0; i < items.length; i += concurrency) {
      const batch = items.slice(i, i + concurrency);
      const batchPromises = batch.map(processor);
      const batchResults = await Promise.all(batchPromises);
      results.push(...batchResults);
    }
    return results;
  }
  \<close>
  The processor is modelled by the promise it returns for an item (its declared type;
  a processor that throws before it returns a promise is not modelled). The times of
  the promises of one chunk count from the start of that chunk, where
  \<^verbatim>\<open>batch.map(processor)\<close> creates them all.
  The loop may run for ever, so it takes fuel: one unit per test of the loop
  condition, and \<open>None\<close> when the fuel runs out with the loop still going. Next to
  the way the call ends, the model returns the items the processor was invoked on, in
  invocation order. \<open>concurrency\<close> is an integer of any sign.
\<close>

fun batch_loop ::
  "nat \<Rightarrow> 'a list \<Rightarrow> ('a \<Rightarrow> ('e, 'r) promise) \<Rightarrow> int \<Rightarrow> int \<Rightarrow> 'a list \<Rightarrow> 'r list
     \<Rightarrow> 'a list \<times> ('e failure, 'r list) completion option" where
  "batch_loop 0 items processor concurrency i invoked results = (invoked, None)"
| "batch_loop (Suc fuel) items processor concurrency i invoked results =
     (if i < int (length items) then
        let batch = slice items i (i + concurrency);
            batchPromises = map processor batch
        in case promise_all batchPromises of
             Pending \<Rightarrow> (invoked @ batch, Some Suspended)
           | Rejected t e \<Rightarrow> (invoked @ batch, Some (Threw (Underlying e)))
           | Fulfilled t batchResults \<Rightarrow>
               batch_loop fuel items processor concurrency (i + concurrency)
                 (invoked @ batch) (results @ batchResults)
      else (invoked, Some (Returned results)))"

definition batchProcess ::
  "nat \<Rightarrow> 'a list \<Rightarrow> ('a \<Rightarrow> ('e, 'r) promise) \<Rightarrow> int
     \<Rightarrow> 'a list \<times> ('e failure, 'r list) completion option" where
  "batchProcess fuel items processor concurrency =
     batch_loop fuel items processor concurrency 0 [] []"

text \<open>
  \<^verbatim>\<open>Array.prototype.map\<close> calls its callback with the element, the index of the
  element in the array and the array itself, so \<^verbatim>\<open>batch.map(processor)\<close> hands the
  processor, next to the item, the index of the item in its chunk and the chunk. The
  loop above is the loop for a processor that reads its first argument only;
  \<open>batch_loop_indexed\<close> is the same loop for a processor that may read all three.
\<close>

definition array_map :: "('a \<Rightarrow> nat \<Rightarrow> 'a list \<Rightarrow> 'b) \<Rightarrow> 'a list \<Rightarrow> 'b list" where
  "array_map callback xs = map (\<lambda>(index, x). callback x index xs) (enumerate 0 xs)"

fun batch_loop_indexed ::
  "nat \<Rightarrow> 'a list \<Rightarrow> ('a \<Rightarrow> nat \<Rightarrow> 'a list \<Rightarrow> ('e, 'r) promise) \<Rightarrow> int \<Rightarrow> int \<Rightarrow> 'a list
     \<Rightarrow> 'r list \<Rightarrow> 'a list \<times> ('e failure, 'r list) completion option" where
  "batch_loop_indexed 0 items processor concurrency i invoked results = (invoked, None)"
| "batch_loop_indexed (Suc fuel) items processor concurrency i invoked results =
     (if i < int (length items) then
        let batch = slice items i (i + concurrency);
            batchPromises = array_map processor batch
        in case promise_all batchPromises of
             Pending \<Rightarrow> (invoked @ batch, Some Suspended)
           | Rejected t e \<Rightarrow> (invoked @ batch, Some (Threw (Underlying e)))
           | Fulfilled t batchResults \<Rightarrow>
               batch_loop_indexed fuel items processor concurrency (i + concurrency)
                 (invoked @ batch) (results @ batchResults)
      else (invoked, Some (Returned results)))"

definition batchProcess_indexed ::
  "nat \<Rightarrow> 'a list \<Rightarrow> ('a \<Rightarrow> nat \<Rightarrow> 'a list \<Rightarrow> ('e, 'r) promise) \<Rightarrow> int
     \<Rightarrow> 'a list \<times> ('e failure, 'r list) completion option" where
  "batchProcess_indexed fuel items processor concurrency =
     batch_loop_indexed fuel items processor concurrency 0 [] []"

text \<open>
  The algorithm in the words of the specification, to compare the loop with: the list
  is cut into chunks of \<open>c\<close> items (the last one may be shorter), each chunk is mapped as
  \<^verbatim>\<open>map\<close> does, and the results are appended in chunk order.
\<close>

function chunked_map :: "('a \<Rightarrow> nat \<Rightarrow> 'a list \<Rightarrow> 'b) \<Rightarrow> nat \<Rightarrow> 'a list \<Rightarrow> 'b list" where
  "chunked_map f c xs =
     (if c = 0 \<or> xs = [] then []
      else array_map f (take c xs) @ chunked_map f c (drop c xs))"
  by pat_completeness auto
termination
  by (relation "measure (\<lambda>(f, c, xs). length xs)") auto

text \<open>
  A call has terminated when it has returned or thrown. It has not when it is suspended
  for ever, or when its loop is still running after the fuel it was given.
\<close>

fun terminated :: "('e, 'r) completion option \<Rightarrow> bool" where
  "terminated (Some (Returned r)) = True"
| "terminated (Some (Threw e)) = True"
| "terminated (Some Suspended) = False"
| "terminated None = False"

text \<open>What a promise does, as predicates, for the statements below.\<close>

fun fulfils :: "('e, 'r) promise \<Rightarrow> bool" where
  "fulfils (Fulfilled t v) = True"
| "fulfils p = False"

fun rejects :: "('e, 'r) promise \<Rightarrow> bool" where
  "rejects (Rejected t e) = True"
| "rejects p = False"

fun settles :: "('e, 'r) promise \<Rightarrow> bool" where
  "settles Pending = False"
| "settles p = True"

section \<open>Numbers and timer delays\<close>

text \<open>
  The numbers of JavaScript are doubles. The numbers the utilities are given
  (\<^verbatim>\<open>concurrency\<close>, \<^verbatim>\<open>maxRetries\<close>, \<^verbatim>\<open>baseDelay\<close>, \<^verbatim>\<open>ms\<close>, \<^verbatim>\<open>wait\<close>,
  \<^verbatim>\<open>limit\<close>) are integers here, and an integer below \<open>2 ^ 53\<close> in size is a double.
  One computation of the source leaves the integers, \<^verbatim>\<open>baseDelay * Math.pow(2, attempt)\<close>:
  \<^verbatim>\<open>Math.pow(2, n)\<close> is \<^verbatim>\<open>Infinity\<close> from \<open>n = 1024\<close> on, a product
  overflows to an infinity from \<open>2 ^ 1024\<close> on, and \<^verbatim>\<open>0 * Infinity\<close> is \<^verbatim>\<open>NaN\<close>.
  Below the overflow the product of such an integer and a power of two is exact.
\<close>

datatype js_number = Num int | PlusInfinity | MinusInfinity | NaN

definition math_pow2 :: "nat \<Rightarrow> js_number" where
  "math_pow2 n = (if n < 1024 then Num (2 ^ n) else PlusInfinity)"

fun js_times :: "int \<Rightarrow> js_number \<Rightarrow> js_number" where
  "js_times a (Num b) =
     (if 2 ^ 1024 \<le> a * b then PlusInfinity
      else if a * b \<le> - (2 ^ 1024) then MinusInfinity
      else Num (a * b))"
| "js_times a PlusInfinity =
     (if 0 < a then PlusInfinity else if a < 0 then MinusInfinity else NaN)"
| "js_times a MinusInfinity =
     (if 0 < a then MinusInfinity else if a < 0 then PlusInfinity else NaN)"
| "js_times a NaN = NaN"

text \<open>
  The timers are those of Node (the source names \<^verbatim>\<open>NodeJS.Timeout\<close>). Its
  \<^verbatim>\<open>setTimeout(callback, after)\<close> runs the timer after \<^verbatim>\<open>after\<close> time units when
  \<open>1 \<le> after \<le> TIMEOUT_MAX = 2 ^ 31 - 1\<close>, and after 1 time unit otherwise, so also
  for 0, for a negative number, for an infinity and for \<^verbatim>\<open>NaN\<close>:
  \<^verbatim>\<open>if (!(after >= 1 && after <= TIMEOUT_MAX)) after = 1\<close>.
\<close>

definition timer_delay :: "js_number \<Rightarrow> nat" where
  "timer_delay after =
     (case after of
        Num d \<Rightarrow> if 1 \<le> d \<and> d \<le> 2 ^ 31 - 1 then nat d else 1
      | _ \<Rightarrow> 1)"

text \<open>
  \<^verbatim>\<open>
  static sleep(ms: number): Promise<void> {
    return new Promise(resolve => setTimeout(resolve, ms));
  }
  \<close>
  \<open>sleep ms\<close> is the time after which the promise of \<^verbatim>\<open>Utils.sleep(ms)\<close> is
  fulfilled.
\<close>

definition sleep :: "js_number \<Rightarrow> nat" where
  "sleep ms = timer_delay ms"

section \<open>\<^verbatim>\<open>Utils.retry\<close>\<close>

text \<open>
  \<^verbatim>\<open>
  static async retry<T>(operation: () => Promise<T>, maxRetries: number = 3,
                        baseDelay: number = 1000): Promise<T> {
    let lastError: Error;
    for (let attempt = 0; attempt <= maxRetries; attempt++) {
      try {
        return await operation();
      } catch (error) {
        lastError = error as Error;
        if (attempt === maxRetries) {
          throw lastError;
        }
        const delay = baseDelay * Math.pow(2, attempt);
        await Utils.sleep(delay);
      }
    }
    throw lastError!;
  }
  \<close>
  The operation may answer differently each time it is invoked: \<open>operation k\<close> is the
  promise returned by its invocation number \<open>k\<close> (counted from 0 in \<open>calls\<close>). The
  model returns the trace of what the call did, an \<open>Invoke\<close> for each
  \<^verbatim>\<open>operation()\<close> and a \<open>Sleep delay\<close> for each \<^verbatim>\<open>await Utils.sleep(delay)\<close>,
  with the double \<open>delay\<close> that \<^verbatim>\<open>baseDelay * Math.pow(2, attempt)\<close> computes, and the
  way the call ends. \<open>maxRetries\<close> and \<open>baseDelay\<close> are integers of any sign;
  \<open>lastError\<close> starts as \<open>Undefined\<close>.
\<close>

datatype retry_event = Invoke | Sleep js_number

function retry_loop ::
  "(nat \<Rightarrow> ('e, 'r) promise) \<Rightarrow> int \<Rightarrow> int \<Rightarrow> int \<Rightarrow> 'e failure \<Rightarrow> nat \<Rightarrow> retry_event list
     \<Rightarrow> retry_event list \<times> ('e failure, 'r) completion" where
  "retry_loop operation maxRetries baseDelay attempt lastError calls trace =
     (if attempt \<le> maxRetries then
        case operation calls of
          Fulfilled t v \<Rightarrow> (trace @ [Invoke], Returned v)
        | Pending \<Rightarrow> (trace @ [Invoke], Suspended)
        | Rejected t error \<Rightarrow>
            if attempt = maxRetries then (trace @ [Invoke], Threw (Underlying error))
            else
              let delay = js_times baseDelay (math_pow2 (nat attempt))
              in retry_loop operation maxRetries baseDelay (attempt + 1) (Underlying error)
                   (Suc calls) (trace @ [Invoke, Sleep delay])
      else (trace, Threw lastError))"
  by pat_completeness auto
termination
  by (relation "measure (\<lambda>(operation, maxRetries, baseDelay, attempt, lastError, calls, trace).
        nat (maxRetries + 1 - attempt))") auto

definition retry ::
  "(nat \<Rightarrow> ('e, 'r) promise) \<Rightarrow> int \<Rightarrow> int \<Rightarrow> retry_event list \<times> ('e failure, 'r) completion" where
  "retry operation maxRetries baseDelay =
     retry_loop operation maxRetries baseDelay 0 Undefined 0 []"

text \<open>
  Observations on a trace: how many times the operation was invoked, the delays handed
  to \<^verbatim>\<open>Utils.sleep\<close> in order, the times waited in those sleeps, and the trace of
  \<open>k\<close> failed attempts, each followed by its sleep.
\<close>

definition invocations :: "retry_event list \<Rightarrow> nat" where
  "invocations trace = length (filter (\<lambda>ev. ev = Invoke) trace)"

fun delays :: "retry_event list \<Rightarrow> js_number list" where
  "delays [] = []"
| "delays (Invoke # trace) = delays trace"
| "delays (Sleep d # trace) = d # delays trace"

definition waits :: "retry_event list \<Rightarrow> nat list" where
  "waits trace = map sleep (delays trace)"

fun failed_attempts :: "int \<Rightarrow> nat \<Rightarrow> retry_event list" where
  "failed_attempts baseDelay 0 = []"
| "failed_attempts baseDelay (Suc k) =
     failed_attempts baseDelay k @ [Invoke, Sleep (js_times baseDelay (math_pow2 k))]"

section \<open>\<^verbatim>\<open>Utils.timeout\<close>\<close>

text \<open>
  \<^verbatim>\<open>
  static timeout<T>(promise: Promise<T>, ms: number): Promise<T> {
    return Promise.race([
      promise,
      new Promise<never>((_, reject) =>
        setTimeout(() => reject(new Error(`Operation timed out after ${ms}ms`)), ms)
      )
    ]);
  }
  \<close>
  \<^verbatim>\<open>Promise.race\<close> settles as the first of its promises to settle does; a promise that
  never settles never wins. When both settle at the same instant, the order in which
  the event loop runs the two settlements decides, which the clock does not tell:
  \<open>firstWins\<close> says whether the first promise is ahead then.
\<close>

fun settled_at :: "('e, 'r) promise \<Rightarrow> nat option" where
  "settled_at Pending = None"
| "settled_at (Fulfilled t v) = Some t"
| "settled_at (Rejected t e) = Some t"

definition promise_race ::
  "bool \<Rightarrow> ('e, 'r) promise \<Rightarrow> ('e, 'r) promise \<Rightarrow> ('e, 'r) promise" where
  "promise_race firstWins p q =
     (case settled_at p of
        None \<Rightarrow> q
      | Some t \<Rightarrow>
          (case settled_at q of
             None \<Rightarrow> p
           | Some u \<Rightarrow> if t < u \<or> (t = u \<and> firstWins) then p else q))"

text \<open>
  The promise given to \<open>timeout\<close> is in flight; its time counts from the call. Its
  rejection reason reaches the caller as it is (\<open>Underlying\<close>). The second promise is
  rejected by the timer, which runs after \<open>timer_delay (Num ms)\<close> time units (\<open>ms\<close> is an
  integer of any sign). Nothing in \<open>timeout\<close> acts on the given promise: it is only
  read.
\<close>

fun pass_through :: "('e, 'r) promise \<Rightarrow> ('e failure, 'r) promise" where
  "pass_through Pending = Pending"
| "pass_through (Fulfilled t v) = Fulfilled t v"
| "pass_through (Rejected t e) = Rejected t (Underlying e)"

definition timeout :: "bool \<Rightarrow> ('e, 'r) promise \<Rightarrow> int \<Rightarrow> ('e failure, 'r) promise" where
  "timeout promiseFirst promise ms =
     promise_race promiseFirst (pass_through promise)
       (Rejected (timer_delay (Num ms)) (TimeoutError ms))"

text \<open>A promise is still pending at a time when it has not settled by then.\<close>

fun pending_at :: "nat \<Rightarrow> ('e, 'r) promise \<Rightarrow> bool" where
  "pending_at ms Pending = True"
| "pending_at ms (Fulfilled t v) = (ms < t)"
| "pending_at ms (Rejected t e) = (ms < t)"

section \<open>Timers\<close>

text \<open>
  \<open>debounce\<close> and \<open>throttle\<close> return closures that keep a variable and use
  \<^verbatim>\<open>setTimeout\<close>. They are modelled over a clock: the state holds the time \<open>now\<close>,
  the pending timers (handle, due time and what the callback needs) in the order they
  were set, the next fresh handle (handles are truthy, they start at 1), and the log
  \<open>funcCalls\<close> of the runs of the wrapped function \<^verbatim>\<open>func\<close>, each with its time and
  arguments. A timer set at time \<open>t\<close> is due at \<open>t + timer_delay after\<close>, so at least one
  time unit later.
\<close>

record ('c, 'a) timer_state =
  now :: nat
  nextHandle :: nat
  timers :: "(nat \<times> nat \<times> 'c) list"
  funcCalls :: "(nat \<times> 'a) list"

definition setTimeout ::
  "'c \<Rightarrow> js_number \<Rightarrow> ('c, 'a, 'z) timer_state_scheme
     \<Rightarrow> nat \<times> ('c, 'a, 'z) timer_state_scheme" where
  "setTimeout callback after s =
     (nextHandle s,
      s\<lparr>nextHandle := Suc (nextHandle s),
        timers := timers s @ [(nextHandle s, now s + timer_delay after, callback)]\<rparr>)"

definition clearTimeout ::
  "nat \<Rightarrow> ('c, 'a, 'z) timer_state_scheme \<Rightarrow> ('c, 'a, 'z) timer_state_scheme" where
  "clearTimeout h s = s\<lparr>timers := filter (\<lambda>(h', due, callback). h' \<noteq> h) (timers s)\<rparr>"

text \<open>
  Time passes one unit at a time. A \<open>tick\<close> moves the clock by one and runs the
  timers that are due then, the earlier timer first (timers due at the same time in
  the order they were set), one after the other: a timer leaves the queue when it is
  run, a callback may clear a timer that is still waiting for its turn, and a timer
  that a callback sets is due at a later tick. \<open>advance run d\<close> is \<open>d\<close> ticks.
\<close>

fun run_due ::
  "('c \<Rightarrow> ('c, 'a, 'z) timer_state_scheme \<Rightarrow> ('c, 'a, 'z) timer_state_scheme)
     \<Rightarrow> (nat \<times> nat \<times> 'c) list
     \<Rightarrow> ('c, 'a, 'z) timer_state_scheme \<Rightarrow> ('c, 'a, 'z) timer_state_scheme" where
  "run_due run [] s = s"
| "run_due run ((h, due, callback) # rest) s =
     run_due run rest
       (if h \<in> set (map fst (timers s)) then run callback (clearTimeout h s) else s)"

definition tick ::
  "('c \<Rightarrow> ('c, 'a, 'z) timer_state_scheme \<Rightarrow> ('c, 'a, 'z) timer_state_scheme)
     \<Rightarrow> ('c, 'a, 'z) timer_state_scheme \<Rightarrow> ('c, 'a, 'z) timer_state_scheme" where
  "tick run s =
     (let s1 = s\<lparr>now := Suc (now s)\<rparr>;
          due_timers = sort_key (\<lambda>(h, due, callback). due)
                         (filter (\<lambda>(h, due, callback). due \<le> now s1) (timers s1))
      in run_due run due_timers s1)"

definition advance ::
  "('c \<Rightarrow> ('c, 'a, 'z) timer_state_scheme \<Rightarrow> ('c, 'a, 'z) timer_state_scheme) \<Rightarrow> nat
     \<Rightarrow> ('c, 'a, 'z) timer_state_scheme \<Rightarrow> ('c, 'a, 'z) timer_state_scheme" where
  "advance run d s = (tick run ^^ d) s"

text \<open>
  The wrapped function \<^verbatim>\<open>func\<close> is the caller's. What one run of it does, as far as
  the wrapper can tell, is its plan: while it runs it calls the function that
  \<open>debounce\<close> or \<open>throttle\<close> returned some times (with these arguments, in this order,
  each call with the plan of the run of \<^verbatim>\<open>func\<close> that the call may lead to), and then
  it returns (\<open>False\<close>) or throws (\<open>True\<close>). An exception of such a call inside
  \<^verbatim>\<open>func\<close> is taken to end that run of \<^verbatim>\<open>func\<close> too.
\<close>

datatype 'a plan = Plan "('a \<times> 'a plan) list" bool

fun reenters :: "'a plan \<Rightarrow> bool" where
  "reenters (Plan nested throws) = (nested \<noteq> [])"

text \<open>
  What happens to a wrapped function: it is called, with arguments and the plan of the
  run of \<^verbatim>\<open>func\<close> the call may lead to, or time passes.
\<close>

datatype 'a event = Call 'a "'a plan" | Advance nat

fun no_reentry :: "'a event \<Rightarrow> bool" where
  "no_reentry (Call args plan) = (\<not> reenters plan)"
| "no_reentry (Advance d) = True"

section \<open>\<^verbatim>\<open>Utils.debounce\<close>\<close>

text \<open>
  \<^verbatim>\<open>
  static debounce<T extends (...args: any[]) => any>(func: T, wait: number)
      : (...args: Parameters<T>) => void {
    let timeout: NodeJS.Timeout | null = null;
    return (...args: Parameters<T>) => {
      if (timeout) {
        clearTimeout(timeout);
      }
      timeout = setTimeout(() => {
        func(...args);
        timeout = null;
      }, wait);
    };
  }
  \<close>
  The closure variable \<^verbatim>\<open>timeout\<close> is the field \<open>timeout_handle\<close> (\<open>None\<close> for
  \<^verbatim>\<open>null\<close>). \<open>debounced wait\<close> is the returned function and \<open>debounce_init\<close> the
  state right after \<^verbatim>\<open>debounce(func, wait)\<close>. \<open>debounce_callback wait\<close> is the callback
  handed to \<^verbatim>\<open>setTimeout\<close>; it holds the arguments and, here, the plan of its run of
  \<^verbatim>\<open>func\<close>: the run is recorded in \<open>funcCalls\<close>, the calls that \<^verbatim>\<open>func\<close> makes to
  the debounced function are made, and \<^verbatim>\<open>timeout = null\<close> follows when \<^verbatim>\<open>func\<close>
  has returned, not when it has thrown (an exception out of a timer callback is taken
  not to end the process). \<open>wait\<close> is an integer of any sign.
\<close>

record 'a debounce_state = "('a \<times> 'a plan, 'a) timer_state" +
  timeout_handle :: "nat option"

definition debounced :: "int \<Rightarrow> 'a \<Rightarrow> 'a plan \<Rightarrow> 'a debounce_state \<Rightarrow> 'a debounce_state" where
  "debounced wait args plan s =
     (let s1 = (case timeout_handle s of Some h \<Rightarrow> clearTimeout h s | None \<Rightarrow> s);
          (h, s2) = setTimeout (args, plan) (Num wait) s1
      in s2\<lparr>timeout_handle := Some h\<rparr>)"

fun debounce_callback ::
  "int \<Rightarrow> 'a \<times> 'a plan \<Rightarrow> 'a debounce_state \<Rightarrow> 'a debounce_state" where
  "debounce_callback wait (args, Plan nested throws) s =
     (let s1 = s\<lparr>funcCalls := funcCalls s @ [(now s, args)]\<rparr>;
          s2 = fold (\<lambda>(args', plan') st. debounced wait args' plan' st) nested s1
      in if throws then s2 else s2\<lparr>timeout_handle := None\<rparr>)"

definition debounce_init :: "'a debounce_state" where
  "debounce_init =
     \<lparr>now = 0, nextHandle = 1, timers = [], funcCalls = [], timeout_handle = None\<rparr>"

fun debounce_step :: "int \<Rightarrow> 'a event \<Rightarrow> 'a debounce_state \<Rightarrow> 'a debounce_state" where
  "debounce_step wait (Call args plan) s = debounced wait args plan s"
| "debounce_step wait (Advance d) s = advance (debounce_callback wait) d s"

definition debounce_run :: "int \<Rightarrow> 'a event list \<Rightarrow> 'a debounce_state \<Rightarrow> 'a debounce_state" where
  "debounce_run wait events s = fold (debounce_step wait) events s"

text \<open>
  A burst: a first call, then further calls, each after a gap since the call before.
\<close>

fun burst :: "'a \<Rightarrow> 'a plan \<Rightarrow> (nat \<times> 'a \<times> 'a plan) list \<Rightarrow> 'a event list" where
  "burst args plan [] = [Call args plan]"
| "burst args plan ((gap, args', plan') # rest) =
     Call args plan # Advance gap # burst args' plan' rest"

text \<open>
  The invariant of the debounced function for a \<^verbatim>\<open>func\<close> that does not call it: no
  timer is pending, or exactly one timer is pending, not yet due, and the variable
  holds its handle.
\<close>

definition debounce_inv :: "'a debounce_state \<Rightarrow> bool" where
  "debounce_inv s =
     (case timers s of
        [] \<Rightarrow> True
      | [(h, due, args, plan)] \<Rightarrow>
          timeout_handle s = Some h \<and> now s < due \<and> \<not> reenters plan
      | _ \<Rightarrow> False)"

section \<open>\<^verbatim>\<open>Utils.throttle\<close>\<close>

text \<open>
  \<^verbatim>\<open>
  static throttle<T extends (...args: any[]) => any>(func: T, limit: number)
      : (...args: Parameters<T>) => void {
    let inThrottle: boolean = false;
    return (...args: Parameters<T>) => {
      if (!inThrottle) {
        func(...args);
        inThrottle = true;
        setTimeout(() => inThrottle = false, limit);
      }
    };
  }
  \<close>
  \<open>throttled limit\<close> is the returned function: next to the new state it tells whether
  the call threw. When the lock is not set it runs \<^verbatim>\<open>func\<close> first (\<open>func_body\<close>: the run
  is recorded, the calls that \<^verbatim>\<open>func\<close> makes to the throttled function are made, up
  to the first that throws), and it sets the lock and the timer only when \<^verbatim>\<open>func\<close>
  has returned. \<open>throttle_callback\<close> is the callback handed to \<^verbatim>\<open>setTimeout\<close> (it
  captures nothing), and \<open>throttle_init\<close> the state right after
  \<^verbatim>\<open>throttle(func, limit)\<close>. \<open>limit\<close> is an integer of any sign.
\<close>

record 'a throttle_state = "(unit, 'a) timer_state" +
  inThrottle :: bool

definition throttle_callback :: "unit \<Rightarrow> 'a throttle_state \<Rightarrow> 'a throttle_state" where
  "throttle_callback u s = s\<lparr>inThrottle := False\<rparr>"

fun throttled ::
  "int \<Rightarrow> 'a \<Rightarrow> 'a plan \<Rightarrow> 'a throttle_state \<Rightarrow> 'a throttle_state \<times> bool"
and func_body ::
  "int \<Rightarrow> ('a \<times> 'a plan) list \<Rightarrow> 'a throttle_state \<Rightarrow> 'a throttle_state \<times> bool" where
  "throttled limit args (Plan nested throws) s =
     (if \<not> inThrottle s then
        case func_body limit nested (s\<lparr>funcCalls := funcCalls s @ [(now s, args)]\<rparr>) of
          (s1, True) \<Rightarrow> (s1, True)
        | (s1, False) \<Rightarrow>
            if throws then (s1, True)
            else
              let s2 = s1\<lparr>inThrottle := True\<rparr>;
                  (h, s3) = setTimeout () (Num limit) s2
              in (s3, False)
      else (s, False))"
| "func_body limit [] s = (s, False)"
| "func_body limit ((args, plan) # rest) s =
     (case throttled limit args plan s of
        (s1, True) \<Rightarrow> (s1, True)
      | (s1, False) \<Rightarrow> func_body limit rest s1)"

definition throttle_init :: "'a throttle_state" where
  "throttle_init =
     \<lparr>now = 0, nextHandle = 1, timers = [], funcCalls = [], inThrottle = False\<rparr>"

fun throttle_step :: "int \<Rightarrow> 'a event \<Rightarrow> 'a throttle_state \<Rightarrow> 'a throttle_state" where
  "throttle_step limit (Call args plan) s = fst (throttled limit args plan s)"
| "throttle_step limit (Advance d) s = advance throttle_callback d s"

definition throttle_run :: "int \<Rightarrow> 'a event list \<Rightarrow> 'a throttle_state \<Rightarrow> 'a throttle_state" where
  "throttle_run limit events s = fold (throttle_step limit) events s"

text \<open>
  The invariant of the throttled function for a \<^verbatim>\<open>func\<close> that does not call it: it
  is locked exactly when its one timer is pending, and that timer is not yet due.
\<close>

definition throttle_inv :: "'a throttle_state \<Rightarrow> bool" where
  "throttle_inv s =
     (case timers s of
        [] \<Rightarrow> \<not> inThrottle s
      | [(h, due, u)] \<Rightarrow> inThrottle s \<and> now s < due
      | _ \<Rightarrow> False)"

text \<open>
  The time that passes in a list of events, and the lists of events that all happen
  before the clock has moved on by \<open>remaining\<close>.
\<close>

fun elapsed :: "'a event list \<Rightarrow> nat" where
  "elapsed [] = 0"
| "elapsed (Call args plan # events) = elapsed events"
| "elapsed (Advance d # events) = d + elapsed events"

fun within_lock :: "nat \<Rightarrow> 'a event list \<Rightarrow> bool" where
  "within_lock remaining [] = True"
| "within_lock remaining (Call args plan # events) = within_lock remaining events"
| "within_lock remaining (Advance d # events) =
     (d < remaining \<and> within_lock (remaining - d) events)"

section \<open>Properties\<close>

subsection \<open>\<^verbatim>\<open>batchProcess\<close>: results in input order\<close>

lemma first_rejection_map_fulfilled:
  "\<forall>x\<in>set xs. fulfils (processor x) \<Longrightarrow> first_rejection (map processor xs) = None"
proof (induction xs)
  case Nil
  then show ?case by simp
next
  case (Cons x xs)
  then show ?case by (cases "processor x") auto
qed

lemma all_fulfilled_map:
  "\<forall>x\<in>set xs. processor x = Fulfilled (d x) (f x) \<Longrightarrow>
   \<exists>t. all_fulfilled (map processor xs) = Some (t, map f xs)"
  by (induction xs) auto

lemma promise_all_map_fulfilled:
  assumes "\<forall>x\<in>set xs. processor x = Fulfilled (d x) (f x)"
  shows "\<exists>t. promise_all (map processor xs) = Fulfilled t (map f xs)"
proof -
  from assms have "\<forall>x\<in>set xs. fulfils (processor x)" by simp
  then have "first_rejection (map processor xs) = None"
    by (rule first_rejection_map_fulfilled)
  moreover from assms obtain t where "all_fulfilled (map processor xs) = Some (t, map f xs)"
    using all_fulfilled_map by blast
  ultimately show ?thesis by (simp add: promise_all_def)
qed

lemma slice_take_drop:
  assumes i: "0 \<le> i" and c: "0 \<le> c"
  shows "slice xs i (i + c) = take (nat c) (drop (nat i) xs)"
proof (cases "i \<le> int (length xs)")
  case True
  then have k: "min i (int (length xs)) = i" by simp
  show ?thesis
  proof (cases "i + c \<le> int (length xs)")
    case True
    then show ?thesis using i c k by (simp add: slice_def Let_def)
  next
    case False
    then have "length xs - nat i \<le> nat c" using i c by linarith
    moreover have "nat (int (length xs) - i) = length xs - nat i" using i by linarith
    ultimately show ?thesis using False i c k by (simp add: slice_def Let_def)
  qed
next
  case False
  then have "length xs \<le> nat i" by linarith
  then have "drop (nat i) xs = []" by simp
  moreover have "nat (min (i + c) (int (length xs)) - min i (int (length xs))) = 0"
    using False c by simp
  ultimately show ?thesis using i c by (simp add: slice_def Let_def)
qed

lemma batch_loop_shift:
  assumes "1 \<le> c"
  shows "0 \<le> i \<Longrightarrow>
     batch_loop fuel items processor c i invoked results =
     batch_loop fuel (drop (nat i) items) processor c 0 invoked results"
proof (induction fuel arbitrary: i items invoked results)
  case 0
  then show ?case by simp
next
  case (Suc fuel)
  have s1: "slice items i (i + c) = take (nat c) (drop (nat i) items)"
    using Suc.prems assms by (simp add: slice_take_drop)
  have s2: "slice (drop (nat i) items) 0 c = take (nat c) (drop (nat i) items)"
    using assms slice_take_drop [of 0 c "drop (nat i) items"] by simp
  have l: "batch_loop fuel items processor c (i + c) inv' res' =
           batch_loop fuel (drop (nat i) items) processor c c inv' res'" for inv' res'
  proof -
    have "batch_loop fuel items processor c (i + c) inv' res' =
          batch_loop fuel (drop (nat (i + c)) items) processor c 0 inv' res'"
      using Suc.IH [of "i + c" items] Suc.prems assms by simp
    also have "drop (nat (i + c)) items = drop (nat c) (drop (nat i) items)"
      using Suc.prems assms by (simp add: nat_add_distrib add.commute)
    also have "batch_loop fuel (drop (nat c) (drop (nat i) items)) processor c 0 inv' res' =
          batch_loop fuel (drop (nat i) items) processor c c inv' res'"
      using Suc.IH [of c "drop (nat i) items" inv' res'] assms by simp
    finally show ?thesis .
  qed
  show ?case
    using Suc.prems by (auto simp: s1 s2 l Let_def split: promise.splits)
qed


lemma batch_loop_step:
  assumes "1 \<le> c"
  shows "batch_loop (Suc fuel) xs processor c 0 invoked results =
     (if xs = [] then (invoked, Some (Returned results))
      else case promise_all (map processor (take (nat c) xs)) of
             Pending \<Rightarrow> (invoked @ take (nat c) xs, Some Suspended)
           | Rejected t e \<Rightarrow> (invoked @ take (nat c) xs, Some (Threw (Underlying e)))
           | Fulfilled t vs \<Rightarrow>
               batch_loop fuel (drop (nat c) xs) processor c 0
                 (invoked @ take (nat c) xs) (results @ vs))"
proof -
  have s: "slice xs 0 c = take (nat c) xs"
    using assms slice_take_drop [of 0 c xs] by simp
  have l: "batch_loop fuel xs processor c c inv' res' =
           batch_loop fuel (drop (nat c) xs) processor c 0 inv' res'" for inv' res'
    using assms batch_loop_shift [of c c fuel xs processor inv' res'] by simp
  show ?thesis
    by (simp add: s l Let_def split: promise.splits)
qed

lemma batch_loop_all_fulfilled:
  assumes c: "1 \<le> c"
  shows "\<forall>x\<in>set xs. processor x = Fulfilled (d x) (f x) \<Longrightarrow> length xs < fuel \<Longrightarrow>
     batch_loop fuel xs processor c 0 invoked results =
       (invoked @ xs, Some (Returned (results @ map f xs)))"
proof (induction fuel arbitrary: xs invoked results)
  case 0
  then show ?case by simp
next
  case (Suc fuel)
  show ?case
  proof (cases "xs = []")
    case True
    then show ?thesis by simp
  next
    case False
    let ?b = "take (nat c) xs" and ?r = "drop (nat c) xs"
    have "\<forall>x\<in>set ?b. processor x = Fulfilled (d x) (f x)"
      using Suc.prems(1) by (meson in_set_takeD)
    then obtain t where pa: "promise_all (map processor ?b) = Fulfilled t (map f ?b)"
      using promise_all_map_fulfilled by blast
    have r: "\<forall>x\<in>set ?r. processor x = Fulfilled (d x) (f x)"
      using Suc.prems(1) by (meson in_set_dropD)
    have "length ?r < fuel" using Suc.prems(2) False c by (cases xs) auto
    then have "batch_loop fuel ?r processor c 0 (invoked @ ?b) (results @ map f ?b) =
        ((invoked @ ?b) @ ?r, Some (Returned ((results @ map f ?b) @ map f ?r)))"
      using Suc.IH [OF r] by blast
    moreover have "map f ?b @ map f ?r = map f xs"
      by (metis append_take_drop_id map_append)
    ultimately show ?thesis using False pa
      by (simp add: batch_loop_step [OF c] del: batch_loop.simps)
  qed
qed


declare chunked_map.simps [simp del]

lemma chunked_map_Nil [simp]: "chunked_map f c [] = []"
  by (simp add: chunked_map.simps)

lemma array_map_item_only [simp]: "array_map (\<lambda>x j ch. g x) xs = map g xs"
proof -
  have "map (\<lambda>(j, x). g x) (enumerate n xs) = map g xs" for n
    by (induction xs arbitrary: n) auto
  then show ?thesis by (simp add: array_map_def)
qed

lemma length_array_map [simp]: "length (array_map f xs) = length xs"
  by (simp add: array_map_def)

lemma nth_array_map: "i < length xs \<Longrightarrow> array_map f xs ! i = f (xs ! i) i xs"
  by (simp add: array_map_def nth_enumerate_eq)

lemma promise_all_array_map_fulfilled:
  assumes "\<forall>x\<in>set xs. \<forall>j ch. processor x j ch = Fulfilled (d x j ch) (f x j ch)"
  shows "\<exists>t. promise_all (array_map processor xs) = Fulfilled t (array_map f xs)"
proof -
  have "\<forall>p\<in>set (enumerate 0 xs).
      (\<lambda>(j, x). processor x j xs) p = Fulfilled ((\<lambda>(j, x). d x j xs) p) ((\<lambda>(j, x). f x j xs) p)"
    using assms by (auto simp: in_set_enumerate_eq)
  from promise_all_map_fulfilled [OF this] show ?thesis
    by (simp add: array_map_def)
qed

lemma batch_loop_indexed_shift:
  assumes "1 \<le> c"
  shows "0 \<le> i \<Longrightarrow>
     batch_loop_indexed fuel items processor c i invoked results =
     batch_loop_indexed fuel (drop (nat i) items) processor c 0 invoked results"
proof (induction fuel arbitrary: i items invoked results)
  case 0
  then show ?case by simp
next
  case (Suc fuel)
  have s1: "slice items i (i + c) = take (nat c) (drop (nat i) items)"
    using Suc.prems assms by (simp add: slice_take_drop)
  have s2: "slice (drop (nat i) items) 0 c = take (nat c) (drop (nat i) items)"
    using assms slice_take_drop [of 0 c "drop (nat i) items"] by simp
  have l: "batch_loop_indexed fuel items processor c (i + c) inv' res' =
           batch_loop_indexed fuel (drop (nat i) items) processor c c inv' res'" for inv' res'
  proof -
    have "batch_loop_indexed fuel items processor c (i + c) inv' res' =
          batch_loop_indexed fuel (drop (nat (i + c)) items) processor c 0 inv' res'"
      using Suc.IH [of "i + c" items] Suc.prems assms by simp
    also have "drop (nat (i + c)) items = drop (nat c) (drop (nat i) items)"
      using Suc.prems assms by (simp add: nat_add_distrib add.commute)
    also have "batch_loop_indexed fuel (drop (nat c) (drop (nat i) items)) processor c 0 inv' res' =
          batch_loop_indexed fuel (drop (nat i) items) processor c c inv' res'"
      using Suc.IH [of c "drop (nat i) items" inv' res'] assms by simp
    finally show ?thesis .
  qed
  show ?case
    using Suc.prems by (auto simp: s1 s2 l Let_def split: promise.splits)
qed

lemma batch_loop_indexed_step:
  assumes "1 \<le> c"
  shows "batch_loop_indexed (Suc fuel) xs processor c 0 invoked results =
     (if xs = [] then (invoked, Some (Returned results))
      else case promise_all (array_map processor (take (nat c) xs)) of
             Pending \<Rightarrow> (invoked @ take (nat c) xs, Some Suspended)
           | Rejected t e \<Rightarrow> (invoked @ take (nat c) xs, Some (Threw (Underlying e)))
           | Fulfilled t vs \<Rightarrow>
               batch_loop_indexed fuel (drop (nat c) xs) processor c 0
                 (invoked @ take (nat c) xs) (results @ vs))"
proof -
  have s: "slice xs 0 c = take (nat c) xs"
    using assms slice_take_drop [of 0 c xs] by simp
  have l: "batch_loop_indexed fuel xs processor c c inv' res' =
           batch_loop_indexed fuel (drop (nat c) xs) processor c 0 inv' res'" for inv' res'
    using assms batch_loop_indexed_shift [of c c fuel xs processor inv' res'] by simp
  show ?thesis
    by (simp add: s l Let_def split: promise.splits)
qed

lemma batch_loop_indexed_all_fulfilled:
  assumes c: "1 \<le> c"
  shows "\<forall>x\<in>set xs. \<forall>j ch. processor x j ch = Fulfilled (d x j ch) (f x j ch) \<Longrightarrow>
     length xs < fuel \<Longrightarrow>
     batch_loop_indexed fuel xs processor c 0 invoked results =
       (invoked @ xs, Some (Returned (results @ chunked_map f (nat c) xs)))"
proof (induction fuel arbitrary: xs invoked results)
  case 0
  then show ?case by simp
next
  case (Suc fuel)
  show ?case
  proof (cases "xs = []")
    case True
    then show ?thesis by simp
  next
    case False
    let ?b = "take (nat c) xs" and ?r = "drop (nat c) xs"
    have "\<forall>x\<in>set ?b. \<forall>j ch. processor x j ch = Fulfilled (d x j ch) (f x j ch)"
      using Suc.prems(1) by (meson in_set_takeD)
    then obtain t where pa: "promise_all (array_map processor ?b) = Fulfilled t (array_map f ?b)"
      using promise_all_array_map_fulfilled by blast
    have r: "\<forall>x\<in>set ?r. \<forall>j ch. processor x j ch = Fulfilled (d x j ch) (f x j ch)"
      using Suc.prems(1) by (meson in_set_dropD)
    have "length ?r < fuel" using Suc.prems(2) False c by (cases xs) auto
    then have "batch_loop_indexed fuel ?r processor c 0 (invoked @ ?b) (results @ array_map f ?b) =
        ((invoked @ ?b) @ ?r, Some (Returned ((results @ array_map f ?b) @ chunked_map f (nat c) ?r)))"
      using Suc.IH [OF r] by blast
    moreover have "array_map f ?b @ chunked_map f (nat c) ?r = chunked_map f (nat c) xs"
      using False c by (simp add: chunked_map.simps [of f "nat c" xs])
    ultimately show ?thesis using False pa
      by (simp add: batch_loop_indexed_step [OF c] del: batch_loop_indexed.simps)
  qed
qed

lemma length_chunked_map: "0 < c \<Longrightarrow> length (chunked_map f c xs) = length xs"
proof (induction f c xs rule: chunked_map.induct)
  case (1 f c xs)
  show ?case
  proof (cases "xs = []")
    case True
    then show ?thesis by simp
  next
    case False
    then show ?thesis using 1 by (simp add: chunked_map.simps [of f c xs])
  qed
qed

lemma nth_chunked_map:
  "0 < c \<Longrightarrow> i < length xs \<Longrightarrow>
     chunked_map f c xs ! i = f (xs ! i) (i mod c) (take c (drop (i div c * c) xs))"
proof (induction f c xs arbitrary: i rule: chunked_map.induct)
  case (1 f c xs)
  from "1.prems" have ne: "xs \<noteq> []" and c: "c \<noteq> 0" by auto
  have unfold: "chunked_map f c xs = array_map f (take c xs) @ chunked_map f c (drop c xs)"
    using ne c by (simp add: chunked_map.simps [of f c xs])
  show ?case
  proof (cases "i < c")
    case True
    then have "i < length (take c xs)" using "1.prems" by simp
    then have "chunked_map f c xs ! i = f (take c xs ! i) i (take c xs)"
      by (simp add: unfold nth_append nth_array_map)
    then show ?thesis using True by simp
  next
    case False
    then have ci: "c \<le> i" by simp
    then have len: "length (take c xs) = c" using "1.prems" by simp
    have i': "i - c < length (drop c xs)" using "1.prems" ci by simp
    have "chunked_map f c xs ! i = chunked_map f c (drop c xs) ! (i - c)"
      using False len by (simp add: unfold nth_append)
    also have "\<dots> = f (drop c xs ! (i - c)) ((i - c) mod c)
        (take c (drop ((i - c) div c * c) (drop c xs)))"
      using "1.IH" [of "i - c"] ne c "1.prems"(1) i' by simp
    also have "drop c xs ! (i - c) = xs ! i" using ci "1.prems" by simp
    also have "(i - c) mod c = i mod c" using ci by (simp add: le_mod_geq)
    also have "drop ((i - c) div c * c) (drop c xs) = drop (i div c * c) xs"
    proof -
      have "i div c = Suc ((i - c) div c)" using ci "1.prems"(1) by (simp add: le_div_geq)
      then show ?thesis by (simp add: add.commute)
    qed
    finally show ?thesis .
  qed
qed

lemma chunked_map_item_only:
  "0 < c \<Longrightarrow> \<forall>x\<in>set xs. \<forall>j ch. f x j ch = g x \<Longrightarrow> chunked_map f c xs = map g xs"
proof (rule nth_equalityI)
  assume "0 < c"
  then show "length (chunked_map f c xs) = length (map g xs)" by (simp add: length_chunked_map)
next
  fix i
  assume c: "0 < c" and g: "\<forall>x\<in>set xs. \<forall>j ch. f x j ch = g x"
    and "i < length (chunked_map f c xs)"
  then have i: "i < length xs" by (simp add: length_chunked_map)
  then show "chunked_map f c xs ! i = map g xs ! i"
    using c g by (simp add: nth_chunked_map)
qed

lemma batch_loop_indexed_item_only:
  "batch_loop_indexed fuel items (\<lambda>x j ch. processor x) c i invoked results =
   batch_loop fuel items processor c i invoked results"
  by (induction fuel arbitrary: i invoked results) (simp_all add: Let_def split: promise.splits)


text \<open>
  Claim C1, as amended. Let the concurrency be at least 1 and let every call of the
  processor on an item of the list be fulfilled. Then \<open>batchProcess\<close> returns one
  result per item, in input order, and has invoked the processor on the items in input
  order. The \<open>i\<close>-th result is the value of the call the loop makes for the \<open>i\<close>-th
  item: the call with that item, with its index in its chunk (\<open>i mod concurrency\<close>) and
  with its chunk. For a processor whose value depends on the item only, the results
  are the values for the items, whatever the concurrency: they are those of
  concurrency 1 (and hence of any concurrency at or above the number of items). On
  the empty list the call returns the empty list with no invocation, whatever the
  concurrency. Fuel above the number of items is enough. For a processor that reads
  its first argument only, the loop is the one of \<open>batchProcess\<close> above.
\<close>

theorem batchProcess_indexed_in_order:
  assumes c: "1 \<le> concurrency"
    and ful: "\<forall>x\<in>set items. \<forall>j ch. processor x j ch = Fulfilled (d x j ch) (f x j ch)"
    and fuel: "length items < fuel"
  shows "batchProcess_indexed fuel items processor concurrency =
        (items, Some (Returned (chunked_map f (nat concurrency) items)))
    \<and> length (chunked_map f (nat concurrency) items) = length items
    \<and> (\<forall>i<length items.
          chunked_map f (nat concurrency) items ! i =
            f (items ! i) (i mod nat concurrency)
              (take (nat concurrency) (drop (i div nat concurrency * nat concurrency) items)))
    \<and> ((\<forall>x\<in>set items. \<forall>j ch. f x j ch = g x) \<longrightarrow>
          batchProcess_indexed fuel items processor concurrency =
            (items, Some (Returned (map g items)))
        \<and> batchProcess_indexed fuel items processor concurrency =
            batchProcess_indexed fuel items processor 1)
    \<and> batchProcess_indexed (Suc n) [] processor' c' = ([], Some (Returned []))
    \<and> batchProcess_indexed n items' (\<lambda>x j ch. processor'' x) c' =
        batchProcess n items' processor'' c'"
proof -
  have run: "batchProcess_indexed fuel items processor k =
        (items, Some (Returned (chunked_map f (nat k) items)))" if "1 \<le> k" for k
    using batch_loop_indexed_all_fulfilled [OF that ful fuel, of "[]" "[]"]
    by (simp add: batchProcess_indexed_def)
  have c0: "0 < nat concurrency" using c by simp
  have len: "length (chunked_map f (nat concurrency) items) = length items"
    using c0 by (rule length_chunked_map)
  have nth: "\<forall>i<length items.
          chunked_map f (nat concurrency) items ! i =
            f (items ! i) (i mod nat concurrency)
              (take (nat concurrency) (drop (i div nat concurrency * nat concurrency) items))"
    using c0 by (simp add: nth_chunked_map)
  have same: "batchProcess_indexed fuel items processor concurrency =
            (items, Some (Returned (map g items)))
        \<and> batchProcess_indexed fuel items processor concurrency =
            batchProcess_indexed fuel items processor 1"
    if g: "\<forall>x\<in>set items. \<forall>j ch. f x j ch = g x"
  proof -
    have "chunked_map f (nat k) items = map g items" if "1 \<le> k" for k
      using that g chunked_map_item_only [of "nat k" items f g] by simp
    then show ?thesis using run c by simp
  qed
  have empty: "batchProcess_indexed (Suc n) [] processor' c' = ([], Some (Returned []))"
    by (simp add: batchProcess_indexed_def)
  have bridge: "batchProcess_indexed n items' (\<lambda>x j ch. processor'' x) c' =
        batchProcess n items' processor'' c'"
    by (simp add: batchProcess_indexed_def batchProcess_def batch_loop_indexed_item_only)
  from run [OF c] len nth same empty bridge show ?thesis by blast
qed

theorem batchProcess_indexed_in_order_witness:
  "batchProcess_indexed 8 [10, 20, 30, 40, 50, 60, 70 :: nat]
     (\<lambda>x j ch. Fulfilled (7 - j) (x + j) :: (string, nat) promise) 3 =
   ([10, 20, 30, 40, 50, 60, 70], Some (Returned [10, 21, 32, 40, 51, 62, 70]))"
proof -
  let ?items = "[10, 20, 30, 40, 50, 60, 70 :: nat]"
  let ?p = "\<lambda>(x :: nat) (j :: nat) (ch :: nat list). Fulfilled (7 - j) (x + j) :: (string, nat) promise"
  have h1: "(1 :: int) \<le> 3" by simp
  have h2: "\<forall>x\<in>set ?items. \<forall>j ch. ?p x j ch =
      Fulfilled ((\<lambda>x j ch. 7 - j) x j ch) ((\<lambda>x j ch. x + j) x j ch)" by simp
  have h3: "length ?items < 8" by simp
  have cm: "chunked_map (\<lambda>(x :: nat) (j :: nat) (ch :: nat list). x + j) (nat 3) ?items =
      [10, 21, 32, 40, 51, 62, 70]"
    by code_simp
  have "batchProcess_indexed 8 ?items ?p 3 =
      (?items, Some (Returned (chunked_map (\<lambda>x j ch. x + j) (nat 3) ?items)))"
    using batchProcess_indexed_in_order [of 3 ?items ?p "\<lambda>x j ch. 7 - j" "\<lambda>x j ch. x + j" 8,
        OF h1 h2 h3]
    by (rule conjunct1)
  then show ?thesis by (simp only: cm)
qed

text \<open>
  The claim as stated fails for a processor that reads the index \<^verbatim>\<open>map\<close> hands it:
  the processor that answers with that index gives \<open>[0, 0, 0]\<close> on three items with
  concurrency 1 and \<open>[0, 1, 2]\<close> with concurrency 3.
\<close>

theorem batchProcess_indexed_in_order_counterexample:
  "batchProcess_indexed 4 [10, 20, 30 :: nat]
     (\<lambda>x j ch. Fulfilled 0 j :: (string, nat) promise) 1 =
     ([10, 20, 30], Some (Returned [0, 0, 0]))
   \<and> batchProcess_indexed 4 [10, 20, 30 :: nat]
     (\<lambda>x j ch. Fulfilled 0 j :: (string, nat) promise) 3 =
     ([10, 20, 30], Some (Returned [0, 1, 2]))"
  by code_simp

subsection \<open>\<^verbatim>\<open>batchProcess\<close>: failing fast\<close>

lemma first_rejection_None_iff:
  "first_rejection ps = None \<longleftrightarrow> (\<forall>p\<in>set ps. \<not> rejects p)"
proof (induction ps)
  case Nil
  then show ?case by simp
next
  case (Cons p ps)
  then show ?case by (cases p) (auto split: option.splits)
qed

lemma first_rejection_Some:
  "first_rejection ps = Some (t, e) \<Longrightarrow>
     Rejected t e \<in> set ps \<and> (\<forall>t' e'. Rejected t' e' \<in> set ps \<longrightarrow> t \<le> t')"
proof (induction ps arbitrary: t e)
  case Nil
  then show ?case by simp
next
  case (Cons p ps)
  show ?case
  proof (cases p)
    case Pending
    then show ?thesis using Cons by auto
  next
    case (Fulfilled u v)
    then show ?thesis using Cons by auto
  next
    case (Rejected u a)
    show ?thesis
    proof (cases "first_rejection ps")
      case None
      then have "\<forall>q\<in>set ps. \<not> rejects q" by (simp add: first_rejection_None_iff)
      then have "\<forall>t' e'. Rejected t' e' \<notin> set ps" by fastforce
      then show ?thesis using Cons.prems Rejected None by auto
    next
      case (Some te)
      obtain t' e' where te: "te = (t', e')" by (cases te)
      from Cons.IH [of t' e'] Some te
      have ih: "Rejected t' e' \<in> set ps" "\<forall>t'' e''. Rejected t'' e'' \<in> set ps \<longrightarrow> t' \<le> t''"
        by auto
      show ?thesis
      proof (cases "t' < u")
        case True
        then have "t = t'" "e = e'" using Cons.prems Rejected Some te by auto
        then show ?thesis using ih True Rejected by auto
      next
        case False
        then have "t = u" "e = a" using Cons.prems Rejected Some te by auto
        then show ?thesis using ih False Rejected by fastforce
      qed
    qed
  qed
qed

lemma promise_all_Rejected:
  "promise_all ps = Rejected t e \<Longrightarrow>
     Rejected t e \<in> set ps \<and> (\<forall>t' e'. Rejected t' e' \<in> set ps \<longrightarrow> t \<le> t')"
  using first_rejection_Some [of ps t e]
  by (auto simp: promise_all_def split: option.splits prod.splits)

lemma promise_all_rejects:
  assumes "\<exists>p\<in>set ps. rejects p"
  shows "\<exists>t e. promise_all ps = Rejected t e"
proof -
  from assms have "first_rejection ps \<noteq> None" by (simp add: first_rejection_None_iff)
  then show ?thesis by (auto simp: promise_all_def split: option.splits)
qed

lemma all_fulfilled_fulfils:
  "\<forall>p\<in>set ps. fulfils p \<Longrightarrow> \<exists>t vs. all_fulfilled ps = Some (t, vs)"
proof (induction ps)
  case Nil
  then show ?case by simp
next
  case (Cons p ps)
  then show ?case by (cases p) auto
qed

lemma promise_all_fulfils:
  assumes "\<forall>p\<in>set ps. fulfils p"
  shows "\<exists>t vs. promise_all ps = Fulfilled t vs"
proof -
  have "\<not> rejects p" if "fulfils p" for p :: "('a, 'b) promise"
    using that by (cases p) auto
  with assms have "\<forall>p\<in>set ps. \<not> rejects p" by blast
  then have "first_rejection ps = None" by (simp add: first_rejection_None_iff)
  moreover obtain t vs where "all_fulfilled ps = Some (t, vs)"
    using all_fulfilled_fulfils [OF assms] by blast
  ultimately show ?thesis by (simp add: promise_all_def)
qed

lemma batch_loop_failing_chunk:
  assumes c: "1 \<le> c"
  shows "\<forall>x\<in>set (take (k * nat c) xs). fulfils (processor x) \<Longrightarrow>
     \<exists>x\<in>set (take (nat c) (drop (k * nat c) xs)). rejects (processor x) \<Longrightarrow>
     k < fuel \<Longrightarrow>
     \<exists>t e. promise_all (map processor (take (nat c) (drop (k * nat c) xs))) = Rejected t e \<and>
       batch_loop fuel xs processor c 0 invoked results =
         (invoked @ take (Suc k * nat c) xs, Some (Threw (Underlying e)))"
proof (induction k arbitrary: xs fuel invoked results)
  case 0
  then obtain n where fuel: "fuel = Suc n" by (cases fuel) auto
  from "0.prems"(2) have ne: "xs \<noteq> []" by auto
  from "0.prems"(2) have "\<exists>p\<in>set (map processor (take (nat c) xs)). rejects p" by auto
  then obtain t e where pa: "promise_all (map processor (take (nat c) xs)) = Rejected t e"
    using promise_all_rejects by blast
  then show ?case using ne fuel
    by (simp add: batch_loop_step [OF c] del: batch_loop.simps)
next
  case (Suc k)
  then obtain n where fuel: "fuel = Suc n" and n: "k < n" by (cases fuel) auto
  let ?b = "take (nat c) xs" and ?r = "drop (nat c) xs"
  have dr: "drop (Suc k * nat c) xs = drop (k * nat c) ?r"
    by (simp add: add.commute)
  from Suc.prems(2) have ne: "xs \<noteq> []" by auto
  have "set ?b \<subseteq> set (take (Suc k * nat c) xs)"
    by (simp add: set_take_subset_set_take)
  then have "\<forall>p\<in>set (map processor ?b). fulfils p" using Suc.prems(1) by auto
  then obtain t vs where pa: "promise_all (map processor ?b) = Fulfilled t vs"
    using promise_all_fulfils by blast
  have tk: "take (Suc k * nat c) xs = ?b @ take (k * nat c) ?r"
    by (simp add: take_add)
  have p1: "\<forall>x\<in>set (take (k * nat c) ?r). fulfils (processor x)"
    using Suc.prems(1) tk by auto
  have p2: "\<exists>x\<in>set (take (nat c) (drop (k * nat c) ?r)). rejects (processor x)"
    using Suc.prems(2) dr by simp
  from Suc.IH [OF p1 p2 n, of "invoked @ ?b" "results @ vs"]
  obtain t' e where
    e: "promise_all (map processor (take (nat c) (drop (k * nat c) ?r))) = Rejected t' e"
    and l: "batch_loop n ?r processor c 0 (invoked @ ?b) (results @ vs) =
         ((invoked @ ?b) @ take (Suc k * nat c) ?r, Some (Threw (Underlying e)))"
    by blast
  have tk2: "take (Suc (Suc k) * nat c) xs = ?b @ take (Suc k * nat c) ?r"
    by (simp add: take_add)
  show ?case
    using e l ne pa fuel dr tk2
    by (simp add: batch_loop_step [OF c] del: batch_loop.simps)
qed


lemma settled_not_rejected:
  "settles p \<Longrightarrow> \<not> rejects p \<Longrightarrow> fulfils p"
  by (cases p) auto

lemma first_failing_chunk:
  assumes c: "0 < (c::nat)"
  shows "\<forall>x\<in>set xs. settles (processor x) \<Longrightarrow> \<exists>x\<in>set xs. rejects (processor x) \<Longrightarrow>
     \<exists>k. (\<forall>x\<in>set (take (k * c) xs). fulfils (processor x)) \<and>
         (\<exists>x\<in>set (take c (drop (k * c) xs)). rejects (processor x))"
proof (induction "length xs" arbitrary: xs rule: less_induct)
  case less
  show ?case
  proof (cases "\<exists>x\<in>set (take c xs). rejects (processor x)")
    case True
    then have "(\<forall>x\<in>set (take (0 * c) xs). fulfils (processor x)) \<and>
         (\<exists>x\<in>set (take c (drop (0 * c) xs)). rejects (processor x))" by simp
    then show ?thesis by blast
  next
    case False
    from less.prems(2) have ne: "xs \<noteq> []" by auto
    have b: "\<forall>x\<in>set (take c xs). fulfils (processor x)"
    proof
      fix x assume x: "x \<in> set (take c xs)"
      then have "settles (processor x)" using less.prems(1) by (meson in_set_takeD)
      moreover have "\<not> rejects (processor x)" using False x by blast
      ultimately show "fulfils (processor x)" by (rule settled_not_rejected)
    qed
    have "set xs = set (take c xs) \<union> set (drop c xs)"
      by (metis append_take_drop_id set_append)
    then have r: "\<exists>x\<in>set (drop c xs). rejects (processor x)"
      using less.prems(2) False by auto
    have s: "\<forall>x\<in>set (drop c xs). settles (processor x)"
      using less.prems(1) by (meson in_set_dropD)
    have "length (drop c xs) < length xs" using ne c by simp
    from less.hyps [OF this s r] obtain k where
      k1: "\<forall>x\<in>set (take (k * c) (drop c xs)). fulfils (processor x)" and
      k2: "\<exists>x\<in>set (take c (drop (k * c) (drop c xs))). rejects (processor x)"
      by blast
    have "take (Suc k * c) xs = take c xs @ take (k * c) (drop c xs)"
      by (simp add: take_add)
    then have "\<forall>x\<in>set (take (Suc k * c) xs). fulfils (processor x)"
      using b k1 by auto
    moreover have "\<exists>x\<in>set (take c (drop (Suc k * c) xs)). rejects (processor x)"
      using k2 by (simp add: add.commute)
    ultimately show ?thesis by blast
  qed
qed

lemma batch_loop_invoked_rejection:
  "\<forall>x\<in>set invoked. \<not> rejects (processor x) \<Longrightarrow>
   \<exists>x\<in>set (fst (batch_loop fuel items processor c i invoked results)). rejects (processor x) \<Longrightarrow>
   \<exists>e. snd (batch_loop fuel items processor c i invoked results) = Some (Threw (Underlying e))"
proof (induction fuel arbitrary: i invoked results)
  case 0
  then show ?case by simp
next
  case (Suc fuel)
  show ?case
  proof (cases "i < int (length items)")
    case False
    then show ?thesis using Suc.prems by simp
  next
    case True
    let ?batch = "slice items i (i + c)"
    show ?thesis
    proof (cases "promise_all (map processor ?batch)")
      case Pending
      have "\<not> (\<exists>p\<in>set (map processor ?batch). rejects p)"
        using promise_all_rejects [of "map processor ?batch"] Pending by auto
      then have "\<forall>x\<in>set (invoked @ ?batch). \<not> rejects (processor x)"
        using Suc.prems(1) by auto
      then show ?thesis using Suc.prems(2) True Pending by (simp add: Let_def)
    next
      case (Fulfilled t vs)
      have "\<not> (\<exists>p\<in>set (map processor ?batch). rejects p)"
        using promise_all_rejects [of "map processor ?batch"] Fulfilled by auto
      then have nr: "\<forall>x\<in>set (invoked @ ?batch). \<not> rejects (processor x)"
        using Suc.prems(1) by auto
      have "\<exists>x\<in>set (fst (batch_loop fuel items processor c (i + c) (invoked @ ?batch)
              (results @ vs))). rejects (processor x)"
        using Suc.prems(2) True Fulfilled by (simp add: Let_def)
      from Suc.IH [OF nr this] show ?thesis using True Fulfilled by (simp add: Let_def)
    next
      case (Rejected t e)
      then show ?thesis using True by (simp add: Let_def)
    qed
  qed
qed

text \<open>
  Claim C4. Let the concurrency be at least 1, let every promise of the processor
  settle, and let the promise of some item be rejected. Then \<open>batchProcess\<close> throws,
  and returns no result list. There is a chunk \<open>k\<close> such that what is thrown is the
  reason \<open>e\<close> of an item \<open>x\<close> of chunk \<open>k\<close>, as that very value (\<open>Underlying e\<close>), and
  no item of chunk \<open>k\<close> is rejected earlier; all items of the chunks before \<open>k\<close> were
  fulfilled; and the processor was invoked on the items of the chunks up to \<open>k\<close> and
  on no item of a later chunk. Moreover, whatever the list, the processor, the
  concurrency and the fuel: once the processor has been invoked on an item whose
  promise is rejected, the call has thrown the reason of a processor's rejection.
\<close>

theorem batchProcess_fail_fast:
  assumes c: "1 \<le> concurrency"
    and settle: "\<forall>x\<in>set items. settles (processor x)"
    and fail: "\<exists>x\<in>set items. rejects (processor x)"
    and fuel: "length items < fuel"
  shows "(\<exists>k t e x.
      batchProcess fuel items processor concurrency =
        (take (Suc k * nat concurrency) items, Some (Threw (Underlying e)))
    \<and> x \<in> set (take (nat concurrency) (drop (k * nat concurrency) items))
    \<and> processor x = Rejected t e
    \<and> (\<forall>y\<in>set (take (nat concurrency) (drop (k * nat concurrency) items)).
          \<forall>t' e'. processor y = Rejected t' e' \<longrightarrow> t \<le> t')
    \<and> (\<forall>y\<in>set (take (k * nat concurrency) items). fulfils (processor y)))
    \<and> ((\<exists>x\<in>set (fst (batchProcess n items' processor' c')). rejects (processor' x))
        \<longrightarrow> (\<exists>e. snd (batchProcess n items' processor' c') = Some (Threw (Underlying e))))"
proof -
  have any: "(\<exists>x\<in>set (fst (batchProcess n items' processor' c')). rejects (processor' x))
        \<longrightarrow> (\<exists>e. snd (batchProcess n items' processor' c') = Some (Threw (Underlying e)))"
    using batch_loop_invoked_rejection [of "[]" processor' n items' c' 0 "[]"]
    by (simp add: batchProcess_def)
  let ?c = "nat concurrency"
  have c0: "0 < ?c" using c by simp
  from first_failing_chunk [OF c0 settle fail] obtain k where
    k1: "\<forall>x\<in>set (take (k * ?c) items). fulfils (processor x)" and
    k2: "\<exists>x\<in>set (take ?c (drop (k * ?c) items)). rejects (processor x)"
    by blast
  let ?chunk = "take ?c (drop (k * ?c) items)"
  from k2 have "drop (k * ?c) items \<noteq> []" by auto
  then have "k * ?c < length items" by simp
  moreover have "k * 1 \<le> k * ?c" using c0 by (intro mult_le_mono2) simp
  ultimately have kf: "k < fuel" using fuel by linarith
  from batch_loop_failing_chunk [OF c k1 k2 kf, of "[]" "[]"] obtain t e where
    pa: "promise_all (map processor ?chunk) = Rejected t e" and
    run: "batchProcess fuel items processor concurrency =
            (take (Suc k * ?c) items, Some (Threw (Underlying e)))"
    by (auto simp: batchProcess_def)
  from promise_all_Rejected [OF pa] have
    m: "Rejected t e \<in> set (map processor ?chunk)" and
    first: "\<forall>t' e'. Rejected t' e' \<in> set (map processor ?chunk) \<longrightarrow> t \<le> t'"
    by blast+
  from m obtain x where x: "x \<in> set ?chunk" "processor x = Rejected t e" by auto
  have "\<forall>y\<in>set ?chunk. \<forall>t' e'. processor y = Rejected t' e' \<longrightarrow> t \<le> t'"
  proof (intro ballI allI impI)
    fix y t' e' assume "y \<in> set ?chunk" "processor y = Rejected t' e'"
    then have "Rejected t' e' \<in> set (map processor ?chunk)" by force
    then show "t \<le> t'" using first by blast
  qed
  with run x k1 have "\<exists>k t e x.
      batchProcess fuel items processor concurrency =
        (take (Suc k * nat concurrency) items, Some (Threw (Underlying e)))
    \<and> x \<in> set (take (nat concurrency) (drop (k * nat concurrency) items))
    \<and> processor x = Rejected t e
    \<and> (\<forall>y\<in>set (take (nat concurrency) (drop (k * nat concurrency) items)).
          \<forall>t' e'. processor y = Rejected t' e' \<longrightarrow> t \<le> t')
    \<and> (\<forall>y\<in>set (take (k * nat concurrency) items). fulfils (processor y))" by blast
  from this any show ?thesis by (rule conjI)
qed


theorem batchProcess_fail_fast_witness:
  "(\<exists>k t e x.
      batchProcess 8 [1, 2, 3, 4, 5, 6, 7 :: nat]
        (\<lambda>x. if x = 5 then Rejected 2 ''boom'' else if x = 4 then Rejected 7 ''late''
              else Fulfilled x (10 * x)) 3 =
        (take (Suc k * nat 3) [1, 2, 3, 4, 5, 6, 7], Some (Threw (Underlying e)))
    \<and> x \<in> set (take (nat 3) (drop (k * nat 3) [1, 2, 3, 4, 5, 6, 7]))
    \<and> (if x = 5 then Rejected 2 ''boom'' else if x = 4 then Rejected 7 ''late''
              else Fulfilled x (10 * x)) = Rejected t e)
   \<and> batchProcess 8 [1, 2, 3, 4, 5, 6, 7 :: nat]
        (\<lambda>x. if x = 5 then Rejected 2 ''boom'' else if x = 4 then Rejected 7 ''late''
              else Fulfilled x (10 * x)) 3 =
      ([1, 2, 3, 4, 5, 6], Some (Threw (Underlying ''boom'')))"
proof -
  let ?items = "[1, 2, 3, 4, 5, 6, 7 :: nat]"
  let ?p = "\<lambda>x :: nat. if x = 5 then Rejected 2 ''boom'' else if x = 4 then Rejected 7 ''late''
              else Fulfilled x (10 * x) :: (string, nat) promise"
  have h1: "(1 :: int) \<le> 3" by simp
  have h2: "\<forall>x\<in>set ?items. settles (?p x)" by simp
  have h3: "\<exists>x\<in>set ?items. rejects (?p x)" by simp
  have h4: "length ?items < 8" by simp
  have "batchProcess 8 ?items ?p 3 = ([1, 2, 3, 4, 5, 6], Some (Threw (Underlying ''boom'')))"
    by code_simp
  moreover from batchProcess_fail_fast [OF h1 h2 h3 h4, THEN conjunct1] have "\<exists>k t e x.
      batchProcess 8 ?items ?p 3 = (take (Suc k * nat 3) ?items, Some (Threw (Underlying e)))
    \<and> x \<in> set (take (nat 3) (drop (k * nat 3) ?items))
    \<and> ?p x = Rejected t e" by blast
  ultimately show ?thesis by blast
qed

subsection \<open>\<^verbatim>\<open>batchProcess\<close>: a concurrency of 0 or less\<close>

lemma slice_backwards:
  assumes "c \<le> 0" and "i < 0 \<or> c = 0"
  shows "slice xs i (i + c) = []"
  using assms by (auto simp: slice_def Let_def)

lemma promise_all_Nil: "promise_all [] = Fulfilled 0 []"
  by (simp add: promise_all_def)

lemma batch_loop_stuck:
  assumes c: "c \<le> 0" and ne: "items \<noteq> []"
  shows "i < 0 \<or> (i = 0 \<and> c = 0) \<Longrightarrow>
     batch_loop fuel items processor c i invoked results = (invoked, None)"
proof (induction fuel arbitrary: i results)
  case 0
  then show ?case by simp
next
  case (Suc fuel)
  have lt: "i < int (length items)" using Suc.prems ne by auto
  have s: "slice items i (i + c) = []"
    using c Suc.prems by (intro slice_backwards) auto
  have "i + c < 0 \<or> (i + c = 0 \<and> c = 0)" using c Suc.prems by auto
  from Suc.IH [OF this] show ?case using lt s by (simp add: promise_all_Nil)
qed

lemma batchProcess_nonpositive:
  assumes c: "c \<le> 0"
  shows "batchProcess (Suc fuel) items processor c =
     (slice items 0 c,
      if items = [] then Some (Returned [])
      else case promise_all (map processor (slice items 0 c)) of
             Pending \<Rightarrow> Some Suspended
           | Rejected t e \<Rightarrow> Some (Threw (Underlying e))
           | Fulfilled t vs \<Rightarrow> None)"
proof (cases "items = []")
  case True
  then show ?thesis by (simp add: batchProcess_def slice_def)
next
  case False
  have "c < 0 \<or> (c = 0 \<and> c = 0)" using c by auto
  from batch_loop_stuck [OF c False this]
  have "batch_loop fuel items processor c c inv' res' = (inv', None)" for inv' res'
    by blast
  then show ?thesis using False
    by (simp add: batchProcess_def Let_def split: promise.splits)
qed

text \<open>
  Claim C9, as amended. \<open>batchProcess\<close> does not validate its concurrency: with a
  concurrency of 0 or less it never throws \<open>InvalidArgument\<close>. The first iteration
  invokes the processor on \<^verbatim>\<open>items.slice(0, concurrency)\<close> (no item when the
  concurrency is 0), and on nothing afterwards. On the empty list the call returns the
  empty list. On a non-empty list it ends only if one of those first promises is
  rejected (it throws that reason) and otherwise never returns: it is suspended on a
  pending promise, or its loop runs for ever.
\<close>

theorem batchProcess_no_validation:
  assumes "concurrency \<le> 0"
  shows "batchProcess (Suc fuel) items processor concurrency =
       (slice items 0 concurrency,
        if items = [] then Some (Returned [])
        else case promise_all (map processor (slice items 0 concurrency)) of
               Pending \<Rightarrow> Some Suspended
             | Rejected t e \<Rightarrow> Some (Threw (Underlying e))
             | Fulfilled t vs \<Rightarrow> None)
    \<and> snd (batchProcess n items processor concurrency) \<noteq> Some (Threw InvalidArgument)
    \<and> batchProcess (Suc fuel) [] processor concurrency = ([], Some (Returned []))
    \<and> fst (batchProcess n items processor 0) = []"
proof -
  note eq = batchProcess_nonpositive [OF assms]
  have a: "snd (batchProcess n items processor concurrency) \<noteq> Some (Threw InvalidArgument)"
  proof (cases n)
    case 0
    then show ?thesis by (simp add: batchProcess_def)
  next
    case (Suc m)
    then show ?thesis by (simp add: eq split: promise.splits)
  qed
  have b: "batchProcess (Suc fuel) [] processor concurrency = ([], Some (Returned []))"
    by (simp add: batchProcess_def)
  have c: "fst (batchProcess n items processor 0) = []"
  proof (cases n)
    case 0
    then show ?thesis by (simp add: batchProcess_def)
  next
    case (Suc m)
    then show ?thesis by (simp add: batchProcess_nonpositive slice_def)
  qed
  from eq a b c show ?thesis by blast
qed

theorem batchProcess_no_validation_witness:
  "batchProcess (Suc 3) [10, 20, 30 :: nat] (\<lambda>x. Fulfilled 0 x :: (string, nat) promise) (- 1) =
     ([10, 20], None)
   \<and> snd (batchProcess 4 [10, 20, 30 :: nat] (\<lambda>x. Fulfilled 0 x :: (string, nat) promise) (- 1))
       \<noteq> Some (Threw InvalidArgument)"
proof -
  have h: "(- 1 :: int) \<le> 0" by simp
  have s: "slice [10, 20, 30 :: nat] 0 (- 1) = [10, 20]" by (simp add: slice_def)
  from batchProcess_no_validation [OF h, of 3 "[10, 20, 30 :: nat]"
      "\<lambda>x. Fulfilled 0 x :: (string, nat) promise" 4]
  show ?thesis by (simp add: s promise_all_def)
qed

text \<open>
  The claim as stated fails: with concurrency 0 the call on the empty list returns, and
  with concurrency \<open>-1\<close> the call on two items invokes the processor on the first one;
  no error is raised in either.
\<close>

theorem batchProcess_no_validation_counterexample:
  "batchProcess 1 [] (\<lambda>x. Fulfilled 0 x :: (string, nat) promise) 0 = ([], Some (Returned []))
   \<and> batchProcess 5 [1, 2 :: nat] (\<lambda>x. Fulfilled 0 x :: (string, nat) promise) (- 1) =
       ([1], None)"
  by code_simp

subsection \<open>\<^verbatim>\<open>batchProcess\<close>: termination\<close>

lemma all_fulfilled_None:
  "all_fulfilled ps = None \<Longrightarrow> \<exists>p\<in>set ps. \<not> fulfils p"
proof (induction ps)
  case Nil
  then show ?case by simp
next
  case (Cons p ps)
  then show ?case by (cases p) (auto split: option.splits)
qed

lemma promise_all_Pending:
  assumes "promise_all ps = Pending"
  shows "\<exists>p\<in>set ps. \<not> settles p"
proof -
  from assms have r: "first_rejection ps = None" and f: "all_fulfilled ps = None"
    by (auto simp: promise_all_def split: option.splits)
  from f obtain p where p: "p \<in> set ps" "\<not> fulfils p" using all_fulfilled_None by blast
  from r p have "\<not> rejects p" by (simp add: first_rejection_None_iff)
  with p(2) have "\<not> settles p" using settled_not_rejected by blast
  with p(1) show ?thesis by blast
qed

lemma batch_loop_terminates:
  assumes c: "1 \<le> c"
  shows "\<forall>x\<in>set xs. settles (processor x) \<Longrightarrow> length xs < fuel \<Longrightarrow>
     terminated (snd (batch_loop fuel xs processor c 0 invoked results))"
proof (induction fuel arbitrary: xs invoked results)
  case 0
  then show ?case by simp
next
  case (Suc fuel)
  show ?case
  proof (cases "xs = []")
    case True
    then show ?thesis by simp
  next
    case False
    let ?b = "take (nat c) xs" and ?r = "drop (nat c) xs"
    have r: "\<forall>x\<in>set ?r. settles (processor x)"
      using Suc.prems(1) by (meson in_set_dropD)
    have len: "length ?r < fuel" using Suc.prems(2) False c by (cases xs) auto
    have b: "\<forall>p\<in>set (map processor ?b). settles p"
      using Suc.prems(1) by (auto dest: in_set_takeD)
    show ?thesis
    proof (cases "promise_all (map processor ?b)")
      case Pending
      then show ?thesis using promise_all_Pending b by blast
    next
      case (Fulfilled t vs)
      then show ?thesis using False Suc.IH [OF r len]
        by (simp add: batch_loop_step [OF c] del: batch_loop.simps)
    next
      case (Rejected t e)
      then show ?thesis using False
        by (simp add: batch_loop_step [OF c] del: batch_loop.simps)
    qed
  qed
qed

text \<open>
  Claim C10, as amended. With a concurrency of at least 1 and a processor whose promises
  all settle, \<open>batchProcess\<close> terminates (fuel above the number of items is enough).
  With a concurrency of 0 or less and a non-empty list the loop index never passes the
  end of the list: the call never returns a result list, and it never terminates
  unless a promise of the first chunk \<^verbatim>\<open>items.slice(0, concurrency)\<close> is rejected.
  With concurrency 0 that chunk is empty and the loop runs for ever.
\<close>

theorem batchProcess_termination:
  "(1 \<le> concurrency \<and> (\<forall>x\<in>set items. settles (processor x)) \<and> length items < fuel
      \<longrightarrow> terminated (snd (batchProcess fuel items processor concurrency)))
   \<and> (concurrency \<le> 0 \<and> items \<noteq> []
      \<longrightarrow> (\<forall>n r. snd (batchProcess n items processor concurrency) \<noteq> Some (Returned r)))
   \<and> (concurrency \<le> 0 \<and> items \<noteq> []
        \<and> (\<forall>x\<in>set (slice items 0 concurrency). \<not> rejects (processor x))
      \<longrightarrow> (\<forall>n. \<not> terminated (snd (batchProcess n items processor concurrency))))
   \<and> (items \<noteq> [] \<longrightarrow> (\<forall>n. batchProcess n items processor 0 = ([], None)))"
proof (intro conjI impI allI)
  assume "1 \<le> concurrency \<and> (\<forall>x\<in>set items. settles (processor x)) \<and> length items < fuel"
  then show "terminated (snd (batchProcess fuel items processor concurrency))"
    using batch_loop_terminates [of concurrency items processor fuel "[]" "[]"]
    by (simp add: batchProcess_def)
next
  fix n r
  assume a: "concurrency \<le> 0 \<and> items \<noteq> []"
  show "snd (batchProcess n items processor concurrency) \<noteq> Some (Returned r)"
  proof (cases n)
    case 0
    then show ?thesis by (simp add: batchProcess_def)
  next
    case (Suc m)
    then show ?thesis using a by (simp add: batchProcess_nonpositive split: promise.splits)
  qed
next
  fix n
  assume a: "concurrency \<le> 0 \<and> items \<noteq> []
        \<and> (\<forall>x\<in>set (slice items 0 concurrency). \<not> rejects (processor x))"
  show "\<not> terminated (snd (batchProcess n items processor concurrency))"
  proof (cases n)
    case 0
    then show ?thesis by (simp add: batchProcess_def)
  next
    case (Suc m)
    show ?thesis
    proof (cases "promise_all (map processor (slice items 0 concurrency))")
      case Pending
      then show ?thesis using a Suc by (simp add: batchProcess_nonpositive)
    next
      case (Fulfilled t vs)
      then show ?thesis using a Suc by (simp add: batchProcess_nonpositive)
    next
      case (Rejected t e)
      from promise_all_Rejected [OF Rejected]
      have "Rejected t e \<in> set (map processor (slice items 0 concurrency))" by blast
      then obtain x where "x \<in> set (slice items 0 concurrency)" "processor x = Rejected t e"
        by auto
      then show ?thesis using a by force
    qed
  qed
next
  fix n
  assume ne: "items \<noteq> []"
  show "batchProcess n items processor 0 = ([], None)"
  proof (cases n)
    case 0
    then show ?thesis by (simp add: batchProcess_def)
  next
    case (Suc m)
    have "slice items 0 0 = []" by (simp add: slice_def)
    then show ?thesis using ne Suc by (simp add: batchProcess_nonpositive promise_all_Nil)
  qed
qed

text \<open>
  The claim as stated fails for a negative concurrency: with concurrency \<open>-1\<close> the
  first chunk of a two-item list is its first item, and when that promise is rejected
  the call terminates, by throwing, in its first iteration.
\<close>

theorem batchProcess_termination_counterexample:
  "batchProcess 1 [1, 2 :: nat] (\<lambda>x. Rejected 0 ''boom'' :: (string, nat) promise) (- 1) =
     ([1], Some (Threw (Underlying ''boom'')))"
  by code_simp


theorem batchProcess_termination_witness:
  "terminated (snd (batchProcess 4 [10, 20, 30 :: nat]
      (\<lambda>x. Fulfilled 0 x :: (string, nat) promise) 2))
   \<and> (\<forall>n. \<not> terminated (snd (batchProcess n [10, 20, 30 :: nat]
      (\<lambda>x. Fulfilled 0 x :: (string, nat) promise) (- 1))))
   \<and> (\<forall>n. batchProcess n [10, 20, 30 :: nat]
      (\<lambda>x. Fulfilled 0 x :: (string, nat) promise) 0 = ([], None))"
proof -
  let ?items = "[10, 20, 30 :: nat]"
  let ?p = "\<lambda>x. Fulfilled 0 x :: (string, nat) promise"
  have a: "1 \<le> (2 :: int) \<and> (\<forall>x\<in>set ?items. settles (?p x)) \<and> length ?items < 4"
    by simp
  have b: "(- 1 :: int) \<le> 0 \<and> ?items \<noteq> []
        \<and> (\<forall>x\<in>set (slice ?items 0 (- 1)). \<not> rejects (?p x))"
    by simp
  have c: "?items \<noteq> []" by simp
  from batchProcess_termination [of 2 ?items ?p 4] a
  have "terminated (snd (batchProcess 4 ?items ?p 2))" by blast
  moreover from batchProcess_termination [of "- 1" ?items ?p] b
  have "\<forall>n. \<not> terminated (snd (batchProcess n ?items ?p (- 1)))" by blast
  moreover from batchProcess_termination [of 0 ?items ?p] c
  have "\<forall>n. batchProcess n ?items ?p 0 = ([], None)" by blast
  ultimately show ?thesis by blast
qed

subsection \<open>\<^verbatim>\<open>retry\<close>\<close>

declare retry_loop.simps [simp del]

lemma retry_loop_rejected:
  assumes "operation calls = Rejected t e" and "attempt < maxRetries"
  shows "retry_loop operation maxRetries baseDelay attempt lastError calls trace =
     retry_loop operation maxRetries baseDelay (attempt + 1) (Underlying e) (Suc calls)
       (trace @ [Invoke, Sleep (js_times baseDelay (math_pow2 (nat attempt)))])"
  using assms
  by (simp add: retry_loop.simps [of operation maxRetries baseDelay attempt lastError calls trace])

lemma retry_after_failures:
  "\<forall>j<k. rejects (operation j) \<Longrightarrow> int k \<le> maxRetries \<Longrightarrow>
     \<exists>lastError. retry operation maxRetries baseDelay =
        retry_loop operation maxRetries baseDelay (int k) lastError k
          (failed_attempts baseDelay k)"
proof (induction k)
  case 0
  then show ?case by (auto simp: retry_def)
next
  case (Suc k)
  then obtain lastError where
    ih: "retry operation maxRetries baseDelay =
        retry_loop operation maxRetries baseDelay (int k) lastError k
          (failed_attempts baseDelay k)"
    by auto
  from Suc.prems(1) have "rejects (operation k)" by simp
  then obtain t e where r: "operation k = Rejected t e" by (cases "operation k") auto
  have lt: "int k < maxRetries" using Suc.prems(2) by simp
  have "retry operation maxRetries baseDelay =
        retry_loop operation maxRetries baseDelay (int (Suc k)) (Underlying e) (Suc k)
          (failed_attempts baseDelay (Suc k))"
    using ih r lt
      retry_loop_rejected [of operation k t e "int k" maxRetries baseDelay lastError
        "failed_attempts baseDelay k"]
    by (simp add: add.commute)
  then show ?case by blast
qed

lemma invocations_failed_attempts [simp]: "invocations (failed_attempts d k) = k"
  by (induction k) (auto simp: invocations_def)

lemma invocations_append [simp]: "invocations (xs @ ys) = invocations xs + invocations ys"
  by (simp add: invocations_def)

lemma delays_append [simp]: "delays (xs @ ys) = delays xs @ delays ys"
  by (induction xs rule: delays.induct) auto

lemma delays_failed_attempts:
  "delays (failed_attempts d k) = map (\<lambda>i. js_times d (math_pow2 i)) [0..<k]"
  by (induction k) auto

lemma retry_first_success:
  assumes "\<forall>j<k. rejects (operation j)" and "operation k = Fulfilled t v"
    and "int k \<le> maxRetries"
  shows "retry operation maxRetries baseDelay =
     (failed_attempts baseDelay k @ [Invoke], Returned v)"
proof -
  from retry_after_failures [OF assms(1) assms(3)] obtain lastError where
    "retry operation maxRetries baseDelay =
        retry_loop operation maxRetries baseDelay (int k) lastError k
          (failed_attempts baseDelay k)" by blast
  then show ?thesis using assms(2,3)
    by (simp add: retry_loop.simps [of operation maxRetries baseDelay "int k"])
qed

lemma retry_suspended:
  assumes "\<forall>j<k. rejects (operation j)" and "operation k = Pending"
    and "int k \<le> maxRetries"
  shows "retry operation maxRetries baseDelay =
     (failed_attempts baseDelay k @ [Invoke], Suspended)"
proof -
  from retry_after_failures [OF assms(1) assms(3)] obtain lastError where
    "retry operation maxRetries baseDelay =
        retry_loop operation maxRetries baseDelay (int k) lastError k
          (failed_attempts baseDelay k)" by blast
  then show ?thesis using assms(2,3)
    by (simp add: retry_loop.simps [of operation maxRetries baseDelay "int k"])
qed

lemma retry_exhausted:
  assumes "\<forall>j<k. rejects (operation j)" and "operation k = Rejected t e"
  shows "retry operation (int k) baseDelay =
     (failed_attempts baseDelay k @ [Invoke], Threw (Underlying e))"
proof -
  have "int k \<le> int k" by simp
  from retry_after_failures [OF assms(1) this] obtain lastError where
    "retry operation (int k) baseDelay =
        retry_loop operation (int k) baseDelay (int k) lastError k
          (failed_attempts baseDelay k)" by blast
  then show ?thesis using assms(2)
    by (simp add: retry_loop.simps [of operation "int k" baseDelay "int k"])
qed

lemma retry_negative:
  "maxRetries < 0 \<Longrightarrow> retry operation maxRetries baseDelay = ([], Threw Undefined)"
  by (simp add: retry_def retry_loop.simps [of operation maxRetries baseDelay 0])

lemma retry_trace_shape:
  assumes R: "0 \<le> maxRetries"
  shows "\<exists>k. int k \<le> maxRetries \<and>
     fst (retry operation maxRetries baseDelay) = failed_attempts baseDelay k @ [Invoke]"
proof (cases "\<exists>k. \<not> rejects (operation k) \<and> int k \<le> maxRetries")
  case True
  then obtain k where k: "\<not> rejects (operation k) \<and> int k \<le> maxRetries"
    and least: "\<forall>j<k. \<not> (\<not> rejects (operation j) \<and> int j \<le> maxRetries)"
    using exists_least_iff [of "\<lambda>k. \<not> rejects (operation k) \<and> int k \<le> maxRetries"] by blast
  have before: "\<forall>j<k. rejects (operation j)"
  proof (intro allI impI)
    fix j assume "j < k"
    moreover from this k have "int j \<le> maxRetries" by simp
    ultimately show "rejects (operation j)" using least by blast
  qed
  have kR: "int k \<le> maxRetries" using k by simp
  show ?thesis
  proof (cases "operation k")
    case Pending
    from retry_suspended [OF before Pending kR] show ?thesis using kR by force
  next
    case (Fulfilled t v)
    from retry_first_success [OF before Fulfilled kR] show ?thesis using kR by force
  next
    case (Rejected t e)
    then show ?thesis using k by simp
  qed
next
  case False
  then have all: "\<forall>k. int k \<le> maxRetries \<longrightarrow> rejects (operation k)" by blast
  let ?k = "nat maxRetries"
  have eq: "int ?k = maxRetries" using R by simp
  have before: "\<forall>j<?k. rejects (operation j)" using all by auto
  from all eq have "rejects (operation ?k)" by simp
  then obtain t e where "operation ?k = Rejected t e" by (cases "operation ?k") auto
  from retry_exhausted [OF before this, of baseDelay] show ?thesis using eq by force
qed

lemma invocations_Invoke [simp]: "invocations [Invoke] = 1"
  by (simp add: invocations_def)

lemma length_failed_attempts [simp]: "length (failed_attempts d k) = 2 * k"
  by (induction k) auto

lemma nth_failed_attempts:
  "i < k \<Longrightarrow> failed_attempts d k ! (2 * i) = Invoke \<and>
             failed_attempts d k ! (2 * i + 1) = Sleep (js_times d (math_pow2 i))"
proof (induction k)
  case 0
  then show ?case by simp
next
  case (Suc k)
  show ?case
  proof (cases "i < k")
    case True
    then show ?thesis using Suc.IH by (simp add: nth_append)
  next
    case False
    then have "i = k" using Suc.prems by simp
    then show ?thesis by (simp add: nth_append)
  qed
qed

text \<open>
  Claim C2. For every operation and every \<open>maxRetries\<close> of at least 0, \<open>retry\<close> invokes
  the operation at most \<open>maxRetries + 1\<close> times. When invocation \<open>k\<close> is the first one
  that is fulfilled (the earlier ones being rejected), \<open>retry\<close> returns its value and
  the trace ends with that invocation, the \<open>k + 1\<close>-th: nothing is invoked or slept
  afterwards. When every invocation is rejected, exactly \<open>maxRetries + 1\<close> invocations
  occur.
\<close>

theorem retry_attempts:
  assumes R: "0 \<le> maxRetries"
  shows "invocations (fst (retry operation maxRetries baseDelay)) \<le> nat maxRetries + 1
    \<and> (\<forall>k t v. int k \<le> maxRetries \<and> (\<forall>j<k. rejects (operation j))
                 \<and> operation k = Fulfilled t v
          \<longrightarrow> retry operation maxRetries baseDelay =
                (failed_attempts baseDelay k @ [Invoke], Returned v)
              \<and> invocations (fst (retry operation maxRetries baseDelay)) = k + 1)
    \<and> ((\<forall>j\<le>nat maxRetries. rejects (operation j))
          \<longrightarrow> invocations (fst (retry operation maxRetries baseDelay)) = nat maxRetries + 1)"
proof (intro conjI allI impI)
  from retry_trace_shape [OF R, of operation baseDelay] obtain k where
    "int k \<le> maxRetries"
    "fst (retry operation maxRetries baseDelay) = failed_attempts baseDelay k @ [Invoke]"
    by blast
  then show "invocations (fst (retry operation maxRetries baseDelay)) \<le> nat maxRetries + 1"
    by simp
next
  fix k t v
  assume a: "int k \<le> maxRetries \<and> (\<forall>j<k. rejects (operation j)) \<and> operation k = Fulfilled t v"
  then have eq: "retry operation maxRetries baseDelay =
     (failed_attempts baseDelay k @ [Invoke], Returned v)"
    using retry_first_success [of k operation t v maxRetries baseDelay] by blast
  then show "retry operation maxRetries baseDelay =
     (failed_attempts baseDelay k @ [Invoke], Returned v)" .
  from eq show "invocations (fst (retry operation maxRetries baseDelay)) = k + 1"
    by simp
next
  assume all: "\<forall>j\<le>nat maxRetries. rejects (operation j)"
  let ?k = "nat maxRetries"
  have eq: "int ?k = maxRetries" using R by simp
  have before: "\<forall>j<?k. rejects (operation j)" using all by auto
  from all have "rejects (operation ?k)" by simp
  then obtain t e where "operation ?k = Rejected t e" by (cases "operation ?k") auto
  from retry_exhausted [OF before this, of baseDelay]
  show "invocations (fst (retry operation maxRetries baseDelay)) = nat maxRetries + 1"
    using eq by simp
qed

theorem retry_attempts_witness:
  "invocations (fst (retry (\<lambda>k. Rejected 7 ''down'' :: (string, nat) promise) 2 1000)) \<le> 3
   \<and> retry (\<lambda>k. if k < 2 then Rejected 7 ''down'' else Fulfilled 7 (42 :: nat)) 3 1000 =
       ([Invoke, Sleep (Num 1000), Invoke, Sleep (Num 2000), Invoke], Returned 42)
   \<and> invocations (fst (retry (\<lambda>k. Rejected 7 ''down'' :: (string, nat) promise) 2 1000)) = 3"
proof -
  let ?fail = "\<lambda>k :: nat. Rejected 7 ''down'' :: (string, nat) promise"
  let ?flaky = "\<lambda>k :: nat. if k < 2 then Rejected 7 ''down'' else Fulfilled 7 (42 :: nat)
      :: (string, nat) promise"
  have h: "(0 :: int) \<le> 2" "(0 :: int) \<le> 3" by simp_all
  have fa: "failed_attempts 1000 2 = [Invoke, Sleep (Num 1000), Invoke, Sleep (Num 2000)]"
    by (simp add: numeral_2_eq_2 math_pow2_def)
  from retry_attempts [OF h(1), of ?fail 1000]
  have a: "invocations (fst (retry ?fail 2 1000)) \<le> 3"
    and c: "invocations (fst (retry ?fail 2 1000)) = 3" by simp_all
  have "int 2 \<le> 3 \<and> (\<forall>j<2. rejects (?flaky j)) \<and> ?flaky 2 = Fulfilled 7 42" by simp
  with retry_attempts [OF h(2), of ?flaky 1000]
  have "retry ?flaky 3 1000 = (failed_attempts 1000 2 @ [Invoke], Returned 42)" by blast
  with a c fa show ?thesis by simp
qed

lemma pow2_large: "1024 \<le> i \<Longrightarrow> (2 :: int) ^ 1024 \<le> 2 ^ i"
  by (rule power_increasing) simp_all

lemma sleep_backoff:
  "sleep (js_times d (math_pow2 i)) =
     (if 1 \<le> d * 2 ^ i \<and> d * 2 ^ i \<le> 2 ^ 31 - 1 then nat (d * 2 ^ i) else 1)"
proof (cases "i < 1024")
  case True
  have "(2 :: int) ^ 31 - 1 < 2 ^ 1024" by simp
  then show ?thesis using True
    by (auto simp: sleep_def timer_delay_def math_pow2_def)
next
  case False
  then have "1024 \<le> i" by simp
  then have big: "(2 :: int) ^ 1024 \<le> 2 ^ i" by (rule pow2_large)
  have small: "(2 :: int) ^ 31 - 1 < 2 ^ 1024" by simp
  consider "0 < d" | "d = 0" | "d < 0" by linarith
  then show ?thesis
  proof cases
    case 1
    then have "1 * 2 ^ i \<le> d * 2 ^ i" by (intro mult_right_mono) simp_all
    with big small have "\<not> d * 2 ^ i \<le> 2 ^ 31 - 1" by linarith
    then show ?thesis using False 1 by (simp add: sleep_def timer_delay_def math_pow2_def)
  next
    case 2
    then show ?thesis using False by (simp add: sleep_def timer_delay_def math_pow2_def)
  next
    case 3
    then have "d * 2 ^ i < 0" by (simp add: mult_less_0_iff)
    then show ?thesis using False 3 by (simp add: sleep_def timer_delay_def math_pow2_def)
  qed
qed

lemma waits_failed_attempts:
  "waits (failed_attempts d k @ [Invoke]) =
     map (\<lambda>i. if 1 \<le> d * 2 ^ i \<and> d * 2 ^ i \<le> 2 ^ 31 - 1 then nat (d * 2 ^ i) else 1) [0..<k]"
  by (simp add: waits_def delays_failed_attempts sleep_backoff)


lemma backoff_in_range:
  assumes "1 \<le> d * 2 ^ i" and "d * 2 ^ i \<le> 2 ^ 31 - 1"
  shows "js_times d (math_pow2 i) = Num (d * 2 ^ i)"
proof -
  have small: "(2 :: int) ^ 31 - 1 < 2 ^ 1024" by simp
  have d: "1 \<le> d"
  proof (rule ccontr)
    assume "\<not> 1 \<le> d"
    then have "d \<le> 0" by simp
    then have "d * 2 ^ i \<le> 0" by (simp add: mult_le_0_iff)
    with assms(1) show False by simp
  qed
  then have m: "(2 :: int) ^ i \<le> d * 2 ^ i"
    using mult_right_mono [of 1 d "2 ^ i"] by simp
  from m assms(2) have le: "(2 :: int) ^ i \<le> 2 ^ 31 - 1" by (rule order_trans)
  have i: "i < 1024"
  proof (rule ccontr)
    assume "\<not> i < 1024"
    then have "1024 \<le> i" by simp
    then have "(2 :: int) ^ 1024 \<le> 2 ^ i" by (rule pow2_large)
    with le small show False by linarith
  qed
  have "d * 2 ^ i < 2 ^ 1024" using assms(2) small by linarith
  moreover have "(0 :: int) < 2 ^ 1024" by simp
  then have "- (2 ^ 1024) < d * 2 ^ i" using assms(1) by linarith
  ultimately show ?thesis using i by (simp add: math_pow2_def)
qed




lemma retry_thrown:
  assumes R: "0 \<le> maxRetries"
    and thrown: "snd (retry operation maxRetries baseDelay) = Threw x"
  shows "(\<forall>j<nat maxRetries. rejects (operation j)) \<and>
     (\<exists>t e. operation (nat maxRetries) = Rejected t e \<and> x = Underlying e)"
proof (cases "\<exists>k. \<not> rejects (operation k) \<and> int k \<le> maxRetries")
  case True
  then obtain k where k: "\<not> rejects (operation k) \<and> int k \<le> maxRetries"
    and least: "\<forall>j<k. \<not> (\<not> rejects (operation j) \<and> int j \<le> maxRetries)"
    using exists_least_iff [of "\<lambda>k. \<not> rejects (operation k) \<and> int k \<le> maxRetries"] by blast
  have before: "\<forall>j<k. rejects (operation j)"
  proof (intro allI impI)
    fix j assume "j < k"
    moreover from this k have "int j \<le> maxRetries" by simp
    ultimately show "rejects (operation j)" using least by blast
  qed
  have kR: "int k \<le> maxRetries" using k by simp
  show ?thesis
  proof (cases "operation k")
    case Pending
    from retry_suspended [OF before Pending kR, of baseDelay] thrown show ?thesis by simp
  next
    case (Fulfilled t v)
    from retry_first_success [OF before Fulfilled kR, of baseDelay] thrown show ?thesis by simp
  next
    case (Rejected t e)
    then show ?thesis using k by simp
  qed
next
  case False
  then have all: "\<forall>k. int k \<le> maxRetries \<longrightarrow> rejects (operation k)" by blast
  let ?k = "nat maxRetries"
  have eq: "int ?k = maxRetries" using R by simp
  have before: "\<forall>j<?k. rejects (operation j)" using all by auto
  from all eq have "rejects (operation ?k)" by simp
  then obtain t e where l: "operation ?k = Rejected t e" by (cases "operation ?k") auto
  from retry_exhausted [OF before l, of baseDelay] thrown eq have "x = Underlying e" by simp
  with before l show ?thesis by blast
qed

text \<open>
  Claim C5, as amended. For every operation that is rejected on all \<open>maxRetries + 1\<close>
  attempts, \<open>retry\<close> throws the reason of the last rejection, as that very value
  (\<open>Underlying e\<close>, not wrapped in another error), after all \<open>maxRetries + 1\<close>
  invocations; the reasons of the earlier rejections do not show in the outcome.
  Conversely, whenever \<open>retry\<close> throws, \<open>maxRetries + 1\<close> invocations have been made
  and what is thrown is the reason of the last one.
\<close>

theorem retry_rethrows_last:
  assumes R: "0 \<le> maxRetries"
  shows "((\<forall>j<nat maxRetries. rejects (operation j))
            \<and> operation (nat maxRetries) = Rejected t e
          \<longrightarrow> retry operation maxRetries baseDelay =
                (failed_attempts baseDelay (nat maxRetries) @ [Invoke], Threw (Underlying e)))
     \<and> (\<forall>x. snd (retry operation maxRetries baseDelay) = Threw x
          \<longrightarrow> invocations (fst (retry operation maxRetries baseDelay)) = nat maxRetries + 1
              \<and> (\<exists>t' e'. operation (nat maxRetries) = Rejected t' e' \<and> x = Underlying e'))"
proof (intro conjI allI impI)
  have eq: "int (nat maxRetries) = maxRetries" using R by simp
  assume "(\<forall>j<nat maxRetries. rejects (operation j))
            \<and> operation (nat maxRetries) = Rejected t e"
  then show "retry operation maxRetries baseDelay =
       (failed_attempts baseDelay (nat maxRetries) @ [Invoke], Threw (Underlying e))"
    using retry_exhausted [of "nat maxRetries" operation t e baseDelay] eq by simp
next
  fix x
  assume thrown: "snd (retry operation maxRetries baseDelay) = Threw x"
  have eq: "int (nat maxRetries) = maxRetries" using R by simp
  from retry_thrown [OF R thrown] obtain t' e' where
    before: "\<forall>j<nat maxRetries. rejects (operation j)" and
    l: "operation (nat maxRetries) = Rejected t' e'" and x: "x = Underlying e'"
    by blast
  from x l show "\<exists>t' e'. operation (nat maxRetries) = Rejected t' e' \<and> x = Underlying e'"
    by blast
  from retry_exhausted [OF before l, of baseDelay] eq
  show "invocations (fst (retry operation maxRetries baseDelay)) = nat maxRetries + 1"
    by simp
qed

theorem retry_rethrows_last_witness:
  "retry (\<lambda>k. Rejected 7 (k + 10) :: (nat, nat) promise) 2 1000 =
     ([Invoke, Sleep (Num 1000), Invoke, Sleep (Num 2000), Invoke], Threw (Underlying 12))"
proof -
  let ?fail = "\<lambda>k :: nat. Rejected 7 (k + 10) :: (nat, nat) promise"
  have h: "(0 :: int) \<le> 2" by simp
  have b: "(\<forall>j<nat 2. rejects (?fail j)) \<and> ?fail (nat 2) = Rejected 7 12" by simp
  have fa: "failed_attempts 1000 2 = [Invoke, Sleep (Num 1000), Invoke, Sleep (Num 2000)]"
    by (simp add: numeral_2_eq_2 math_pow2_def)
  from retry_rethrows_last [OF h, of ?fail 7 12 1000] b
  have "retry ?fail 2 1000 = (failed_attempts 1000 (nat 2) @ [Invoke], Threw (Underlying 12))"
    by blast
  then show ?thesis by (simp add: fa)
qed

text \<open>
  The claim as stated fails: an operation that always fails with \<open>''down''\<close> makes
  \<open>retry\<close> throw \<open>''down''\<close> itself, not an \<open>OperationFailed\<close> error that wraps it.
\<close>

theorem retry_rethrows_last_counterexample:
  "snd (retry (\<lambda>k. Rejected 7 ''down'' :: (string, nat) promise) 2 1000) =
     Threw (Underlying ''down'')
   \<and> snd (retry (\<lambda>k. Rejected 7 ''down'' :: (string, nat) promise) 2 1000) \<noteq>
     Threw (OperationFailed ''down'')"
  by code_simp

subsection \<open>\<^verbatim>\<open>timeout\<close>\<close>

lemma timer_delay_in_range:
  "1 \<le> ms \<Longrightarrow> ms \<le> 2 ^ 31 - 1 \<Longrightarrow> timer_delay (Num ms) = nat ms"
  by (simp add: timer_delay_def)

lemma timer_delay_out_of_range:
  "\<not> (1 \<le> ms \<and> ms \<le> 2 ^ 31 - 1) \<Longrightarrow> timer_delay (Num ms) = 1"
  by (auto simp: timer_delay_def)

lemma timeout_pending_at:
  "pending_at (timer_delay (Num ms)) promise \<Longrightarrow>
     timeout tie promise ms = Rejected (timer_delay (Num ms)) (TimeoutError ms)"
  by (cases promise) (auto simp: timeout_def promise_race_def)




subsection \<open>Timers\<close>

lemma timer_delay_pos: "0 < timer_delay after"
  by (cases after) (auto simp: timer_delay_def)

lemma advance_add: "advance run (m + n) s = advance run m (advance run n s)"
  by (simp add: advance_def funpow_add)

lemma advance_Suc: "advance run (Suc d) s = tick run (advance run d s)"
  by (simp add: advance_def)

lemma tick_no_timer: "timers s = [] \<Longrightarrow> tick run s = s\<lparr>now := Suc (now s)\<rparr>"
  by (simp add: tick_def Let_def)

lemma tick_not_due:
  "timers s = [(h, due, callback)] \<Longrightarrow> Suc (now s) < due \<Longrightarrow>
     tick run s = s\<lparr>now := Suc (now s)\<rparr>"
  by (simp add: tick_def Let_def)

lemma advance_no_timer: "timers s = [] \<Longrightarrow> advance run d s = s\<lparr>now := now s + d\<rparr>"
proof (induction d)
  case 0
  then show ?case by (simp add: advance_def)
next
  case (Suc d)
  then show ?case by (simp add: advance_Suc tick_no_timer)
qed

lemma advance_not_due:
  "timers s = [(h, due, callback)] \<Longrightarrow> now s + d < due \<Longrightarrow>
     advance run d s = s\<lparr>now := now s + d\<rparr>"
proof (induction d)
  case 0
  then show ?case by (simp add: advance_def)
next
  case (Suc d)
  then have "advance run d s = s\<lparr>now := now s + d\<rparr>" by simp
  moreover have "tick run (s\<lparr>now := now s + d\<rparr>) = s\<lparr>now := now s + d\<rparr>\<lparr>now := Suc (now s + d)\<rparr>"
    using Suc.prems tick_not_due [of "s\<lparr>now := now s + d\<rparr>" h due callback run] by simp
  ultimately show ?case by (simp add: advance_Suc)
qed

subsection \<open>\<^verbatim>\<open>debounce\<close>\<close>

lemma debounce_tick_due:
  assumes "timers s = [(h, due, args, Plan [] throws)]" and "due = Suc (now s)"
  shows "timers (tick (debounce_callback wait) s) = []"
    and "now (tick (debounce_callback wait) s) = Suc (now s)"
    and "funcCalls (tick (debounce_callback wait) s) = funcCalls s @ [(due, args)]"
  using assms by (simp_all add: tick_def Let_def clearTimeout_def)

lemma debounce_advance_due:
  assumes t: "timers s = [(h, due, args, Plan [] throws)]"
    and lt: "now s < due" and le: "due \<le> now s + d"
  shows "timers (advance (debounce_callback wait) d s) = []"
    and "now (advance (debounce_callback wait) d s) = now s + d"
    and "funcCalls (advance (debounce_callback wait) d s) = funcCalls s @ [(due, args)]"
proof -
  let ?run = "debounce_callback wait"
  let ?k = "due - Suc (now s)" and ?r = "now s + d - due"
  have d: "d = ?r + Suc ?k" using lt le by simp
  let ?s1 = "advance ?run ?k s"
  have s1: "?s1 = s\<lparr>now := now s + ?k\<rparr>"
    using advance_not_due [OF t, of ?k ?run] lt by simp
  have t1: "timers ?s1 = [(h, due, args, Plan [] throws)]" and n1: "due = Suc (now ?s1)"
    and c1: "funcCalls ?s1 = funcCalls s"
    using t lt by (simp_all add: s1)
  let ?s2 = "tick ?run ?s1"
  note f2 = debounce_tick_due [OF t1 n1, of wait]
  have split: "advance ?run d s = advance ?run ?r ?s2"
  proof -
    have "advance ?run d s = advance ?run (?r + Suc ?k) s" using d by simp
    then show ?thesis by (simp only: advance_add advance_Suc)
  qed
  have s3: "advance ?run ?r ?s2 = ?s2\<lparr>now := now ?s2 + ?r\<rparr>"
    using advance_no_timer [OF f2(1)] by simp
  show "timers (advance ?run d s) = []" using f2(1) by (simp add: split s3)
  show "now (advance ?run d s) = now s + d" using f2(2) n1 lt le by (simp add: split s3)
  show "funcCalls (advance ?run d s) = funcCalls s @ [(due, args)]"
    using f2(3) c1 by (simp add: split s3)
qed

lemma debounce_inv_Nil: "timers s = [] \<Longrightarrow> debounce_inv s"
  by (simp add: debounce_inv_def)

lemma debounce_inv_single:
  "timers s = [(h, due, args, plan)] \<Longrightarrow>
     debounce_inv s = (timeout_handle s = Some h \<and> now s < due \<and> \<not> reenters plan)"
  by (simp add: debounce_inv_def)

lemma debounce_inv_cases:
  assumes "debounce_inv s"
  shows "timers s = [] \<or>
     (\<exists>h due args plan. timers s = [(h, due, args, plan)] \<and> timeout_handle s = Some h
        \<and> now s < due \<and> \<not> reenters plan)"
proof (cases "timers s")
  case Nil
  then show ?thesis by simp
next
  case (Cons tm rest)
  obtain h due args plan where tm: "tm = (h, due, args, plan)" by (cases tm)
  show ?thesis
  proof (cases rest)
    case Nil
    then have one: "timers s = [(h, due, args, plan)]" using Cons tm by simp
    from assms have "timeout_handle s = Some h \<and> now s < due \<and> \<not> reenters plan"
      by (simp add: debounce_inv_single [OF one])
    with one show ?thesis by simp
  next
    case (Cons tm' rest')
    then have False using assms \<open>timers s = tm # rest\<close> tm
      by (simp add: debounce_inv_def split: prod.splits)
    then show ?thesis ..
  qed
qed

lemma debounced_fields:
  assumes "debounce_inv s"
  shows "timers (debounced wait args plan s) =
           [(nextHandle s, now s + timer_delay (Num wait), args, plan)]"
    and "timeout_handle (debounced wait args plan s) = Some (nextHandle s)"
    and "now (debounced wait args plan s) = now s"
    and "funcCalls (debounced wait args plan s) = funcCalls s"
  using debounce_inv_cases [OF assms]
  by (auto simp: debounced_def setTimeout_def clearTimeout_def split: option.splits)

lemma debounce_inv_step:
  assumes inv: "debounce_inv s" and ev: "no_reentry ev"
  shows "debounce_inv (debounce_step wait ev s)"
proof (cases ev)
  case (Call args plan)
  then show ?thesis
    using debounced_fields [OF inv, of wait args plan] ev timer_delay_pos [of "Num wait"]
    by (simp add: debounce_inv_single)
next
  case (Advance d)
  from debounce_inv_cases [OF inv] show ?thesis
  proof
    assume Nil: "timers s = []"
    then show ?thesis
      using Advance advance_no_timer [OF Nil, of "debounce_callback wait" d]
      by (simp add: debounce_inv_Nil)
  next
    assume "\<exists>h due args plan. timers s = [(h, due, args, plan)] \<and> timeout_handle s = Some h
        \<and> now s < due \<and> \<not> reenters plan"
    then obtain h due args plan where one: "timers s = [(h, due, args, plan)]"
      and th: "timeout_handle s = Some h" and lt: "now s < due" and nr: "\<not> reenters plan"
      by blast
    from nr obtain throws where plan: "plan = Plan [] throws" by (cases plan) auto
    show ?thesis
    proof (cases "now s + d < due")
      case True
      then show ?thesis
        using Advance th nr one advance_not_due [OF one True, of "debounce_callback wait"]
        by (simp add: debounce_inv_single)
    next
      case False
      then have "due \<le> now s + d" by simp
      from debounce_advance_due [OF one [unfolded plan] lt this, of wait] show ?thesis
        using Advance by (simp add: debounce_inv_Nil)
    qed
  qed
qed

lemma debounce_inv_run:
  "debounce_inv s \<Longrightarrow> \<forall>ev\<in>set events. no_reentry ev \<Longrightarrow>
     debounce_inv (debounce_run wait events s)"
proof (induction events arbitrary: s)
  case Nil
  then show ?case by (simp add: debounce_run_def)
next
  case (Cons ev events)
  have "debounce_inv (debounce_step wait ev s)"
    using debounce_inv_step [OF Cons.prems(1), of ev wait] Cons.prems(2) by simp
  from Cons.IH [OF this] Cons.prems(2) show ?case by (simp add: debounce_run_def)
qed

lemma debounce_inv_init: "debounce_inv debounce_init"
  by (simp add: debounce_inv_def debounce_init_def)

lemma debounce_run_append:
  "debounce_run wait (es @ es') s = debounce_run wait es' (debounce_run wait es s)"
  by (simp add: debounce_run_def)

lemma debounce_run_Cons:
  "debounce_run wait (ev # es) s = debounce_run wait es (debounce_step wait ev s)"
  by (simp add: debounce_run_def)

lemma no_reentry_burst:
  "\<not> reenters plan \<Longrightarrow> \<forall>(gap, args', plan')\<in>set rest. \<not> reenters plan' \<Longrightarrow>
     \<forall>ev\<in>set (burst args plan rest). no_reentry ev"
  by (induction args plan rest rule: burst.induct) auto

lemma debounce_burst:
  "debounce_inv s \<Longrightarrow> \<not> reenters plan \<Longrightarrow>
   \<forall>(gap, args', plan')\<in>set rest. \<not> reenters plan' \<and> gap < timer_delay (Num wait) \<Longrightarrow>
     funcCalls (debounce_run wait (burst args plan rest) s) = funcCalls s
   \<and> now (debounce_run wait (burst args plan rest) s) = now s + sum_list (map fst rest)
   \<and> (\<exists>h throws. timers (debounce_run wait (burst args plan rest) s) =
             [(h, now s + sum_list (map fst rest) + timer_delay (Num wait),
               last (args # map (fst \<circ> snd) rest), Plan [] throws)])"
proof (induction args plan rest arbitrary: s rule: burst.induct)
  case (1 args plan)
  from "1.prems"(2) obtain throws where "plan = Plan [] throws" by (cases plan) auto
  then show ?case
    using debounced_fields [OF "1.prems"(1), of wait args plan] by (simp add: debounce_run_def)
next
  case (2 args plan gap args' plan' rest)
  let ?s1 = "debounced wait args plan s"
  let ?s2 = "advance (debounce_callback wait) gap ?s1"
  from "2.prems"(3) have gap: "gap < timer_delay (Num wait)" and nr': "\<not> reenters plan'"
    and rest: "\<forall>(gap, args', plan')\<in>set rest. \<not> reenters plan' \<and> gap < timer_delay (Num wait)"
    by auto
  note f1 = debounced_fields [OF "2.prems"(1), of wait args plan]
  have nd: "now ?s1 + gap < now s + timer_delay (Num wait)" using gap f1(3) by simp
  have s2: "?s2 = ?s1\<lparr>now := now ?s1 + gap\<rparr>"
    by (rule advance_not_due [OF f1(1) nd])
  have inv1: "debounce_inv ?s1"
    using debounce_inv_step [OF "2.prems"(1), of "Call args plan" wait] "2.prems"(2) by simp
  have inv2: "debounce_inv ?s2"
    using debounce_inv_step [OF inv1, of "Advance gap" wait] by simp
  from "2.IH" [OF inv2 nr' rest] f1 s2
  show ?case by (simp add: debounce_run_Cons add.assoc)
qed




subsection \<open>\<^verbatim>\<open>throttle\<close>\<close>

lemma throttled_locked: "inThrottle s \<Longrightarrow> throttled limit args plan s = (s, False)"
  by (cases plan) simp

lemma throttled_unlocked:
  assumes "timers s = []" and "\<not> inThrottle s"
  shows "timers (fst (throttled limit args (Plan [] False) s)) =
      [(nextHandle s, now s + timer_delay (Num limit), ())]"
    and "inThrottle (fst (throttled limit args (Plan [] False) s))"
    and "now (fst (throttled limit args (Plan [] False) s)) = now s"
    and "funcCalls (fst (throttled limit args (Plan [] False) s)) = funcCalls s @ [(now s, args)]"
    and "\<not> snd (throttled limit args (Plan [] False) s)"
  using assms by (simp_all add: setTimeout_def Let_def)

lemma throttled_throws:
  assumes "\<not> inThrottle s"
  shows "timers (fst (throttled limit args (Plan [] True) s)) = timers s"
    and "\<not> inThrottle (fst (throttled limit args (Plan [] True) s))"
    and "now (fst (throttled limit args (Plan [] True) s)) = now s"
    and "funcCalls (fst (throttled limit args (Plan [] True) s)) = funcCalls s @ [(now s, args)]"
    and "snd (throttled limit args (Plan [] True) s)"
  using assms by simp_all

lemma throttled_invokes:
  assumes "\<not> inThrottle s" and "\<not> reenters plan"
  shows "funcCalls (fst (throttled limit args plan s)) = funcCalls s @ [(now s, args)]"
proof -
  obtain nested throws where p: "plan = Plan nested throws" by (cases plan)
  with assms(2) have "nested = []" by simp
  with p assms(1) show ?thesis by (cases throws) (simp_all add: setTimeout_def Let_def)
qed

declare throttled.simps [simp del]

lemma throttle_tick_due:
  assumes "timers s = [(h, due, ())]" and "due = Suc (now s)"
  shows "timers (tick throttle_callback s) = []"
    and "now (tick throttle_callback s) = Suc (now s)"
    and "funcCalls (tick throttle_callback s) = funcCalls s"
    and "\<not> inThrottle (tick throttle_callback s)"
  using assms by (simp_all add: tick_def Let_def clearTimeout_def throttle_callback_def)

lemma throttle_advance_due:
  assumes t: "timers s = [(h, due, ())]"
    and lt: "now s < due" and le: "due \<le> now s + d"
  shows "timers (advance throttle_callback d s) = []"
    and "now (advance throttle_callback d s) = now s + d"
    and "funcCalls (advance throttle_callback d s) = funcCalls s"
    and "\<not> inThrottle (advance throttle_callback d s)"
proof -
  let ?run = "throttle_callback :: unit \<Rightarrow> 'a throttle_state \<Rightarrow> 'a throttle_state"
  let ?k = "due - Suc (now s)" and ?r = "now s + d - due"
  have d: "d = ?r + Suc ?k" using lt le by simp
  let ?s1 = "advance ?run ?k s"
  have s1: "?s1 = s\<lparr>now := now s + ?k\<rparr>"
    using advance_not_due [OF t, of ?k ?run] lt by simp
  have t1: "timers ?s1 = [(h, due, ())]" and n1: "due = Suc (now ?s1)"
    and c1: "funcCalls ?s1 = funcCalls s"
    using t lt by (simp_all add: s1)
  let ?s2 = "tick ?run ?s1"
  note f2 = throttle_tick_due [OF t1 n1]
  have split: "advance ?run d s = advance ?run ?r ?s2"
  proof -
    have "advance ?run d s = advance ?run (?r + Suc ?k) s" using d by simp
    then show ?thesis by (simp only: advance_add advance_Suc)
  qed
  have s3: "advance ?run ?r ?s2 = ?s2\<lparr>now := now ?s2 + ?r\<rparr>"
    using advance_no_timer [OF f2(1)] by simp
  show "timers (advance ?run d s) = []" using f2(1) by (simp add: split s3)
  show "now (advance ?run d s) = now s + d" using f2(2) n1 lt le by (simp add: split s3)
  show "funcCalls (advance ?run d s) = funcCalls s" using f2(3) c1 by (simp add: split s3)
  show "\<not> inThrottle (advance ?run d s)" using f2(4) by (simp add: split s3)
qed

lemma throttle_inv_Nil: "timers s = [] \<Longrightarrow> throttle_inv s = (\<not> inThrottle s)"
  by (simp add: throttle_inv_def)

lemma throttle_inv_single:
  "timers s = [(h, due, u)] \<Longrightarrow> throttle_inv s = (inThrottle s \<and> now s < due)"
  by (simp add: throttle_inv_def)

lemma throttle_inv_cases:
  assumes "throttle_inv s"
  shows "(timers s = [] \<and> \<not> inThrottle s) \<or>
     (\<exists>h due. timers s = [(h, due, ())] \<and> inThrottle s \<and> now s < due)"
proof (cases "timers s")
  case Nil
  then show ?thesis using assms by (simp add: throttle_inv_Nil)
next
  case (Cons tm rest)
  obtain h due u where tm: "tm = (h, due, u)" by (cases tm)
  show ?thesis
  proof (cases rest)
    case Nil
    then have one: "timers s = [(h, due, ())]" using Cons tm by simp
    from assms have "inThrottle s \<and> now s < due"
      by (simp add: throttle_inv_single [OF one])
    with one show ?thesis by simp
  next
    case (Cons tm' rest')
    then have False using assms \<open>timers s = tm # rest\<close> tm
      by (simp add: throttle_inv_def split: prod.splits)
    then show ?thesis ..
  qed
qed

lemma throttle_inv_step:
  assumes inv: "throttle_inv s" and ev: "no_reentry ev"
  shows "throttle_inv (throttle_step limit ev s)"
proof (cases ev)
  case (Call args plan)
  obtain nested throws where p: "plan = Plan nested throws" by (cases plan)
  with ev Call have n: "nested = []" by simp
  show ?thesis
  proof (cases "inThrottle s")
    case True
    then show ?thesis using inv Call by (simp add: throttled_locked)
  next
    case False
    with throttle_inv_cases [OF inv] have t: "timers s = []" by auto
    show ?thesis
    proof (cases throws)
      case True
      from throttled_throws [OF False, of limit args] t show ?thesis
        using Call p n True by (simp add: throttle_inv_Nil)
    next
      case no: False
      note f = throttled_unlocked [OF t False, of limit args]
      have "throttle_inv (fst (throttled limit args (Plan [] False) s))"
        using f(2) f(3) timer_delay_pos [of "Num limit"]
        by (simp add: throttle_inv_single [OF f(1)])
      then show ?thesis using Call p n no by simp
    qed
  qed
next
  case (Advance d)
  from throttle_inv_cases [OF inv] show ?thesis
  proof
    assume a: "timers s = [] \<and> \<not> inThrottle s"
    then show ?thesis
      using Advance advance_no_timer [of s throttle_callback d]
      by (simp add: throttle_inv_Nil)
  next
    assume "\<exists>h due. timers s = [(h, due, ())] \<and> inThrottle s \<and> now s < due"
    then obtain h due where one: "timers s = [(h, due, ())]" and th: "inThrottle s"
      and lt: "now s < due" by blast
    show ?thesis
    proof (cases "now s + d < due")
      case True
      have "advance throttle_callback d s = s\<lparr>now := now s + d\<rparr>"
        by (rule advance_not_due [OF one True])
      then show ?thesis
        using Advance th True one
        by (simp add: throttle_inv_single [of _ h due "()"])
    next
      case False
      then have "due \<le> now s + d" by simp
      from throttle_advance_due [OF one lt this] show ?thesis
        using Advance by (simp add: throttle_inv_Nil)
    qed
  qed
qed

lemma throttle_inv_run:
  "throttle_inv s \<Longrightarrow> \<forall>ev\<in>set events. no_reentry ev \<Longrightarrow>
     throttle_inv (throttle_run limit events s)"
proof (induction events arbitrary: s)
  case Nil
  then show ?case by (simp add: throttle_run_def)
next
  case (Cons ev events)
  from Cons.prems(2) have e: "no_reentry ev" and r: "\<forall>ev\<in>set events. no_reentry ev"
    by simp_all
  from Cons.IH [OF throttle_inv_step [OF Cons.prems(1) e, of limit] r]
  show ?case by (simp add: throttle_run_def)
qed

lemma throttle_inv_init: "throttle_inv throttle_init"
  by (simp add: throttle_inv_def throttle_init_def)

lemma throttle_run_append:
  "throttle_run limit (es @ es') s = throttle_run limit es' (throttle_run limit es s)"
  by (simp add: throttle_run_def)

lemma throttle_run_Cons:
  "throttle_run limit (ev # es) s = throttle_run limit es (throttle_step limit ev s)"
  by (simp add: throttle_run_def)

lemma within_lock_elapsed: "within_lock r events \<Longrightarrow> 0 < r \<Longrightarrow> elapsed events < r"
proof (induction events arbitrary: r)
  case Nil
  then show ?case by simp
next
  case (Cons ev events)
  then show ?case by (cases ev) fastforce+
qed

lemma throttle_locked_window:
  "timers s = [(h, due, ())] \<Longrightarrow> inThrottle s \<Longrightarrow> now s \<le> due \<Longrightarrow>
   within_lock (due - now s) events \<Longrightarrow>
     timers (throttle_run limit events s) = [(h, due, ())]
   \<and> inThrottle (throttle_run limit events s)
   \<and> funcCalls (throttle_run limit events s) = funcCalls s
   \<and> now (throttle_run limit events s) = now s + elapsed events
   \<and> now s + elapsed events \<le> due"
proof (induction events arbitrary: s)
  case Nil
  then show ?case by (simp add: throttle_run_def)
next
  case (Cons ev events)
  show ?case
  proof (cases ev)
    case (Call args plan)
    then show ?thesis
      using Cons by (simp add: throttle_run_Cons throttled_locked)
  next
    case (Advance d)
    let ?s1 = "advance throttle_callback d s"
    from Cons.prems(4) Advance have d: "d < due - now s"
      and w: "within_lock (due - now s - d) events" by simp_all
    have nd: "now s + d < due" using d by simp
    have s1: "?s1 = s\<lparr>now := now s + d\<rparr>" by (rule advance_not_due [OF Cons.prems(1) nd])
    have t1: "timers ?s1 = [(h, due, ())]" using Cons.prems(1) by (simp add: s1)
    have l: "inThrottle ?s1" using Cons.prems(2) by (simp add: s1)
    have n1: "now ?s1 = now s + d" by (simp add: s1)
    have c1: "funcCalls ?s1 = funcCalls s" by (simp add: s1)
    have le: "now ?s1 \<le> due" using n1 nd by simp
    have w': "within_lock (due - now ?s1) events" using w n1 by (simp add: diff_diff_eq)
    from Cons.IH [OF t1 l le w'] show ?thesis
      using Advance n1 c1 by (simp add: throttle_run_Cons add.assoc)
  qed
qed




end
